theory Spec2Isabelle
  imports
    Complex_Main
    "HOL-Library.AList"
    "HOL-Library.Char_ord"
    "HOL-Library.List_Lexorder"
    "HOL-Library.Product_Lexorder"
begin

section \<open>Conventions of the embedding\<close>

text \<open>
  The pricing core of the repository is pure Python over floats, ints, strings, lists and
  dicts.  Python floats are modelled by \<^typ>\<open>real\<close>: every statement below is about the exact
  arithmetic the code writes down, not about IEEE rounding.  Python ints are \<^typ>\<open>int\<close>.
  Strings are \<^typ>\<open>string\<close> and are read as ASCII text.  A dict is an association list in
  insertion order (\<^const>\<open>AList.update\<close> replaces in place and appends a new key at the end,
  as a Python dict does); a key that may be absent from a row is an \<open>option\<close> field.
  Exceptions are values: a function that contains a division whose divisor is not guarded, a
  conversion of an unbounded int to a float, or a call that can raise, returns
  \<open>error + 'a\<close>.  A float that the source is handed (a weight, a line, an edge) is a finite
  number.
\<close>

datatype error = ZeroDivisionError | ValueError | OverflowError

definition py_truediv :: "real \<Rightarrow> real \<Rightarrow> error + real" where
  \<comment> \<open>Python's \<open>a / b\<close> on numbers: raises on a zero divisor.\<close>
  "py_truediv a b = (if b = 0 then Inl ZeroDivisionError else Inr (a / b))"

definition float_limit :: int where
  \<comment> \<open>The least positive int that does not convert to a float: from here on an int rounds
      to beyond the largest double, \<open>2 ^ 1024 - 2 ^ 971\<close>.\<close>
  "float_limit = 2 ^ 1024 - 2 ^ 970"

definition py_float :: "int \<Rightarrow> error + real" where
  \<comment> \<open>The conversion that \<open>int + float\<close> applies to its int operand; it raises
      \<open>OverflowError: int too large to convert to float\<close>.\<close>
  "py_float n = (if \<bar>n\<bar> < float_limit then Inr (of_int n) else Inl OverflowError)"

definition and_then :: "error + 'a \<Rightarrow> ('a \<Rightarrow> error + 'b) \<Rightarrow> error + 'b" where
  \<comment> \<open>Sequencing of two statements, the first of which may raise.\<close>
  "and_then r f = (case r of Inl e \<Rightarrow> Inl e | Inr v \<Rightarrow> f v)"

definition dict_get :: "'a option \<Rightarrow> 'a \<Rightarrow> 'a" where
  \<comment> \<open>\<open>d.get(key, default)\<close> for a key modelled as an option field.\<close>
  "dict_get v d = (case v of None \<Rightarrow> d | Some x \<Rightarrow> x)"

definition py_round :: "real \<Rightarrow> int" where
  \<comment> \<open>\<open>round(x)\<close>: to the nearest integer, ties to the even one.\<close>
  "py_round x =
     (let f = \<lfloor>x\<rfloor>; d = x - of_int f
      in if d < 1 / 2 then f
         else if 1 / 2 < d then f + 1
         else if even f then f else f + 1)"

definition py_round_nd :: "real \<Rightarrow> nat \<Rightarrow> real" where
  \<comment> \<open>\<open>round(x, n)\<close>: to \<open>n\<close> decimals, ties to even.\<close>
  "py_round_nd x n = of_int (py_round (x * 10 ^ n)) / 10 ^ n"

definition py_take :: "int \<Rightarrow> 'a list \<Rightarrow> 'a list" where
  \<comment> \<open>The slice \<open>xs[:n]\<close>; a negative \<open>n\<close> drops that many elements from the end.\<close>
  "py_take n xs = (if 0 \<le> n then take (nat n) xs else take (length xs - nat (- n)) xs)"

definition sorted_desc :: "('a \<Rightarrow> 'k::linorder) \<Rightarrow> 'a list \<Rightarrow> 'a list" where
  \<comment> \<open>\<open>sorted(xs, key=f, reverse=True)\<close>: descending and stable, which is the stable
      ascending sort of the reversed list, reversed.\<close>
  "sorted_desc f xs = rev (sort_key f (rev xs))"

subsection \<open>ASCII string helpers\<close>

definition py_lower_char :: "char \<Rightarrow> char" where
  "py_lower_char c =
     (if CHR ''A'' \<le> c \<and> c \<le> CHR ''Z'' then char_of (of_char c + (32::nat)) else c)"

definition py_lower :: "string \<Rightarrow> string" where
  "py_lower s = map py_lower_char s"

definition py_isspace :: "char \<Rightarrow> bool" where
  "py_isspace c = ((of_char c :: nat) \<in> {9, 10, 11, 12, 13, 28, 29, 30, 31, 32})"

definition py_strip :: "string \<Rightarrow> string" where
  "py_strip s = rev (dropWhile py_isspace (rev (dropWhile py_isspace s)))"

definition py_isalnum :: "char \<Rightarrow> bool" where
  "py_isalnum c =
     ((CHR ''0'' \<le> c \<and> c \<le> CHR ''9'') \<or> (CHR ''a'' \<le> c \<and> c \<le> CHR ''z'')
      \<or> (CHR ''A'' \<le> c \<and> c \<le> CHR ''Z''))"

section \<open>Odds normalizer: \<open>strategy_engine.py\<close>\<close>

record settings =
  dfs_fixed_implied_prob :: real
  edge_threshold :: real

definition default_settings :: settings where
  "default_settings = \<lparr>dfs_fixed_implied_prob = 545 / 1000, edge_threshold = 3 / 100\<rparr>"

definition american_to_implied :: "int \<Rightarrow> error + real" where
  "american_to_implied odds =
     (if odds < 0 then py_truediv (of_int \<bar>odds\<bar>) (of_int (\<bar>odds\<bar> + 100))
      else py_truediv 100 (of_int (odds + 100)))"

text \<open>The dict returned by \<open>calculate_edge\<close>.\<close>

record edge_calc =
  sharp_prob :: real
  fixed_prob :: real
  opposing_prob :: "real option"
  fair_prob :: "real option"
  vig_pct :: "real option"
  edge :: real

definition calculate_edge ::
  "settings \<Rightarrow> int \<Rightarrow> real option \<Rightarrow> int option \<Rightarrow> real \<Rightarrow> error + edge_calc" where
  "calculate_edge st sharp_odds fixed_implied_prob opposing_odds assumed_vig =
     (let fixed = (case fixed_implied_prob of None \<Rightarrow> dfs_fixed_implied_prob st | Some f \<Rightarrow> f)
      in and_then (american_to_implied sharp_odds) (\<lambda>sharp.
           case opposing_odds of
             Some opp \<Rightarrow>
               and_then (american_to_implied opp) (\<lambda>opp_prob.
                 let total_prob = sharp + opp_prob;
                     vig = total_prob - 1
                 in and_then (py_truediv sharp total_prob) (\<lambda>fair.
                      Inr \<lparr>sharp_prob = sharp, fixed_prob = fixed,
                           opposing_prob = Some (py_round_nd opp_prob 4),
                           fair_prob = Some (py_round_nd fair 4),
                           vig_pct = Some (py_round_nd (vig * 100) 2),
                           edge = fair - fixed\<rparr>))
           | None \<Rightarrow>
               let assumed_total = 1 + max 0 assumed_vig
               in and_then (py_truediv sharp assumed_total) (\<lambda>fair.
                    Inr \<lparr>sharp_prob = sharp, fixed_prob = fixed,
                         opposing_prob = None,
                         fair_prob = Some (py_round_nd fair 4),
                         vig_pct = Some (py_round_nd (assumed_vig * 100) 2),
                         edge = fair - fixed\<rparr>)))"

text \<open>The dataclass \<open>PropOpportunity\<close>; its fields carry the prefix \<open>po_\<close>.\<close>

record PropOpportunity =
  po_player_id :: string
  po_player_name :: string
  po_market :: string
  po_line :: real
  po_sharp_odds :: int
  po_sharp_book :: string
  po_sharp_implied_prob :: real
  po_fixed_implied_prob :: real
  po_edge :: real
  po_is_play :: bool
  po_opposing_odds :: "int option"
  po_opposing_implied_prob :: "real option"
  po_fair_prob :: "real option"
  po_vig_pct :: "real option"

definition evaluate_prop ::
  "settings \<Rightarrow> string \<Rightarrow> string \<Rightarrow> string \<Rightarrow> real \<Rightarrow> int \<Rightarrow> string \<Rightarrow> int option
     \<Rightarrow> error + PropOpportunity" where
  "evaluate_prop st player_id player_name market line sharp_odds sharp_book opposing_odds =
     and_then (calculate_edge st sharp_odds None opposing_odds (5 / 100)) (\<lambda>calc.
       Inr \<lparr>po_player_id = player_id, po_player_name = player_name, po_market = market,
            po_line = line, po_sharp_odds = sharp_odds, po_sharp_book = sharp_book,
            po_sharp_implied_prob = py_round_nd (sharp_prob calc) 4,
            po_fixed_implied_prob = py_round_nd (fixed_prob calc) 4,
            po_edge = py_round_nd (edge calc) 4,
            po_is_play = (edge_threshold st \<le> edge calc),
            po_opposing_odds = opposing_odds,
            po_opposing_implied_prob = opposing_prob calc,
            po_fair_prob = fair_prob calc,
            po_vig_pct = vig_pct calc\<rparr>)"

section \<open>Consensus aggregator: \<open>consensus_engine.py\<close>\<close>

definition ALIASES :: "(string \<times> string) list" where
  "ALIASES =
     [(''bookmaker'', ''bookmaker''), (''bookmakercom'', ''bookmaker''),
      (''bookmaker.eu'', ''bookmaker''), (''pinnacle'', ''pinnacle''),
      (''fanduel'', ''fanduel''), (''fanduelsportsbook'', ''fanduel''),
      (''draftkings'', ''draftkings''), (''draftkingssportsbook'', ''draftkings''),
      (''underdog'', ''underdog''), (''underdogfantasy'', ''underdog''),
      (''underdogsports'', ''underdog''), (''sleeper'', ''sleeper''),
      (''sleeperpicks'', ''sleeper''), (''prizepicks'', ''prizepicks''),
      (''prize_picks'', ''prizepicks'')]"

definition DEFAULT_WEIGHTS :: "(string \<times> real) list" where
  "DEFAULT_WEIGHTS =
     [(''bookmaker'', 4), (''pinnacle'', 3), (''fanduel'', 6), (''draftkings'', 4),
      (''underdog'', 0), (''sleeper'', 0), (''prizepicks'', 0)]"

definition canonical_book :: "string \<Rightarrow> string" where
  "canonical_book name =
     (let compact = filter (\<lambda>ch. py_isalnum ch \<or> ch = CHR ''.'' \<or> ch = CHR ''_'') (py_lower name);
          compact = filter (\<lambda>ch. ch \<noteq> CHR ''_'') compact
      in dict_get (map_of ALIASES compact) compact)"

definition ce_american_to_implied :: "int \<Rightarrow> error + real" where
  \<comment> \<open>\<open>consensus_engine.american_to_implied\<close>, a second copy of the conversion.  It adds
      the float \<open>100.0\<close> to the int, which converts the int first; the copy of
      \<open>strategy_engine.py\<close> divides int by int and converts nothing.\<close>
  "ce_american_to_implied odds =
     (if odds < 0 then and_then (py_float \<bar>odds\<bar>) (\<lambda>a. py_truediv a (a + 100))
      else and_then (py_float odds) (\<lambda>v. py_truediv 100 (v + 100)))"

definition implied_to_american :: "real \<Rightarrow> error + int" where
  "implied_to_american prob =
     (let p = max (1 / 10 ^ 6) (min (1 - 1 / 10 ^ 6) prob)
      in if 1 / 2 \<le> p
         then and_then (py_truediv (- 100 * p) (1 - p)) (\<lambda>q. Inr (py_round q))
         else and_then (py_truediv 100 p) (\<lambda>q. Inr (py_round (q - 100))))"

text \<open>
  A quote row of one cell.  Only the keys \<open>book\<close> and \<open>odds\<close> are read by the per-cell
  computation; \<open>q_odds = None\<close> is a row whose odds are missing or do not parse, the case in
  which \<open>int(row.get("odds"))\<close> raises and the loop continues with the next row.
\<close>

record quote_row =
  q_book :: string
  q_odds :: "int option"

record book_entry =
  be_book :: string
  be_odds :: int
  be_weight :: real
  be_implied_prob_pct :: real

record consensus =
  consensus_prob :: real
  consensus_odds :: int
  cs_books :: "book_entry list"
  cs_books_used :: nat
  cs_total_weight :: real
  cs_weight_coverage_pct :: real
  cs_available_books :: "string list"

definition weight_of :: "(string \<times> real) list \<Rightarrow> string \<Rightarrow> real" where
  \<comment> \<open>\<open>float(weights.get(book, 0.0))\<close>\<close>
  "weight_of weights book = dict_get (map_of weights book) 0"

definition best_step :: "quote_row \<Rightarrow> (string \<times> int) list \<Rightarrow> (string \<times> int) list" where
  "best_step row best =
     (let book = canonical_book (q_book row)
      in case q_odds row of
           None \<Rightarrow> best
         | Some odds \<Rightarrow>
             (case map_of best book of
                None \<Rightarrow> AList.update book odds best
              | Some prev \<Rightarrow> if \<bar>odds\<bar> < \<bar>prev\<bar> then AList.update book odds best else best))"

definition best_per_book :: "quote_row list \<Rightarrow> (string \<times> int) list" where
  "best_per_book rows = fold best_step rows []"

definition weighted_books :: "(string \<times> real) list \<Rightarrow> (string \<times> int) list \<Rightarrow> (string \<times> int) list" where
  "weighted_books weights best = filter (\<lambda>(book, odds). 0 < weight_of weights book) best"

fun weighted_sums ::
  "(string \<times> real) list \<Rightarrow> (string \<times> int) list \<Rightarrow> real \<times> real \<Rightarrow> error + (real \<times> real)" where
  "weighted_sums weights [] acc = Inr acc"
| "weighted_sums weights ((book, odds) # rest) (weighted_prob_sum, total_weight) =
     and_then (ce_american_to_implied odds) (\<lambda>implied.
       let w = weight_of weights book
       in weighted_sums weights rest (weighted_prob_sum + implied * w, total_weight + w))"

fun book_entries :: "(string \<times> real) list \<Rightarrow> (string \<times> int) list \<Rightarrow> error + book_entry list" where
  "book_entries weights [] = Inr []"
| "book_entries weights ((book, odds) # rest) =
     and_then (ce_american_to_implied odds) (\<lambda>implied.
       and_then (book_entries weights rest) (\<lambda>bs.
         Inr (\<lparr>be_book = book, be_odds = odds, be_weight = weight_of weights book,
               be_implied_prob_pct = py_round_nd (implied * 100) 2\<rparr> # bs)))"

definition max_weight :: "(string \<times> real) list \<Rightarrow> real" where
  \<comment> \<open>\<open>sum(float(v) for v in weights.values() if v > 0)\<close>\<close>
  "max_weight weights = sum_list (filter (\<lambda>v. 0 < v) (map snd weights))"

definition consensus_from_rows ::
  "quote_row list \<Rightarrow> (string \<times> real) list \<Rightarrow> error + consensus option" where
  "consensus_from_rows rows weights =
     (let best = best_per_book rows
      in if best = [] then Inr None
         else let wb = weighted_books weights best
              in if wb = [] then Inr None
                 else and_then (weighted_sums weights wb (0, 0)) (\<lambda>(weighted_prob_sum, total_weight).
                      and_then (book_entries weights best) (\<lambda>books.
                        if total_weight \<le> 0 then Inr None
                        else and_then (py_truediv weighted_prob_sum total_weight) (\<lambda>cprob.
                             let mw = max_weight weights;
                                 books = sorted_desc (\<lambda>b. (be_weight b, be_book b)) books
                             in and_then (implied_to_american cprob) (\<lambda>codds.
                                and_then (if 0 < mw
                                          then and_then (py_truediv total_weight mw)
                                                 (\<lambda>r. Inr (py_round_nd (r * 100) 2))
                                          else Inr 0) (\<lambda>coverage.
                                  Inr (Some \<lparr>consensus_prob = cprob, consensus_odds = codds,
                                             cs_books = books, cs_books_used = length wb,
                                             cs_total_weight = py_round_nd total_weight 4,
                                             cs_weight_coverage_pct = coverage,
                                             cs_available_books = map be_book books\<rparr>)))))))"

section \<open>Slip optimizer: \<open>slip_optimizer.py\<close>\<close>

text \<open>
  A scan row as the optimizer reads it.  Each field is a key of the dict, \<open>None\<close> when the
  key is absent; \<open>book_odds\<close> holds the book names of the row's \<open>book_odds\<close> entries.
\<close>

record opportunity =
  player_name :: "string option"
  market :: "string option"
  line :: "real option"
  side :: "string option"
  edge_pct :: "real option"
  books_used :: "real option"
  weight_coverage_pct :: "real option"
  sharp_odds :: "int option"
  opposing_odds :: "int option"
  available_on_sleeper_compatible :: "bool option"
  book_odds :: "string list"

record SlipCandidate =
  players :: "opportunity list"
  combined_edge :: real
  estimated_win_prob :: real
  expected_value :: real
  payout_multiplier :: real
  avg_leg_confidence :: real
  mode :: string
  book :: string

text \<open>
  A payout is a scalar multiplier (power and standard modes) or a table from the number of
  hits to a multiplier (flex and insured modes).
\<close>

datatype payout = Multiplier real | HitTable "(int \<times> real) list"

definition BOOK_PAYOUTS :: "(string \<times> (string \<times> (int \<times> payout) list) list) list" where
  "BOOK_PAYOUTS =
     [(''prizepicks'',
        [(''power'', [(2, Multiplier 3), (3, Multiplier 5), (4, Multiplier 10), (5, Multiplier 20)]),
         (''flex'',
            [(3, HitTable [(3, 225 / 100), (2, 125 / 100), (1, 0), (0, 0)]),
             (4, HitTable [(4, 5), (3, 15 / 10), (2, 0), (1, 0), (0, 0)]),
             (5, HitTable [(5, 10), (4, 2), (3, 4 / 10), (2, 0), (1, 0), (0, 0)]),
             (6, HitTable [(6, 25), (5, 2), (4, 4 / 10), (3, 0), (2, 0), (1, 0), (0, 0)])])]),
      (''underdog'',
        [(''standard'', [(3, Multiplier 6), (4, Multiplier 10), (5, Multiplier 20), (6, Multiplier 40)]),
         (''insured'',
            [(3, HitTable [(3, 3), (2, 1), (1, 0), (0, 0)]),
             (4, HitTable [(4, 6), (3, 15 / 10), (2, 0), (1, 0), (0, 0)]),
             (5, HitTable [(5, 10), (4, 25 / 10), (3, 0), (2, 0), (1, 0), (0, 0)]),
             (6, HitTable [(6, 20), (5, 25 / 10), (4, 0), (3, 0), (2, 0), (1, 0), (0, 0)])])]),
      (''sleeper'',
        [(''power'', map (\<lambda>n. (n, Multiplier (py_round_nd ((175 / 100) ^ nat n) 2))) [2..6])])]"

definition LEGACY_PAYOUTS :: "(int \<times> real) list" where
  "LEGACY_PAYOUTS = [(2, 3), (3, 5), (4, 10), (5, 20), (6, 40)]"

definition get_payout :: "string \<Rightarrow> string \<Rightarrow> int \<Rightarrow> payout" where
  "get_payout bk md n_legs =
     (let book_data = dict_get (map_of BOOK_PAYOUTS bk) [];
          mode_data = dict_get (map_of book_data md) [];
          legacy = Multiplier (dict_get (map_of LEGACY_PAYOUTS n_legs) 2)
      in if mode_data = [] then legacy
         else dict_get (map_of mode_data n_legs) legacy)"

definition american_to_implied_prob :: "int \<Rightarrow> real" where
  \<comment> \<open>Both divisors are at least 100.\<close>
  "american_to_implied_prob odds =
     (if 0 < odds then 100 / of_int (odds + 100)
      else of_int \<bar>odds\<bar> / of_int (\<bar>odds\<bar> + 100))"

definition no_vig_prob :: "int \<Rightarrow> int option \<Rightarrow> real" where
  "no_vig_prob main_odds opp_odds =
     (let p_main = american_to_implied_prob main_odds
      in case opp_odds of
           None \<Rightarrow> p_main
         | Some opp \<Rightarrow>
             let p_opp = american_to_implied_prob opp;
                 total = p_main + p_opp
             in if 0 < total then p_main / total else p_main)"

definition leg_confidence_weight :: "opportunity \<Rightarrow> real" where
  "leg_confidence_weight p =
     (let has_opposing = (opposing_odds p \<noteq> None);
          e = \<bar>dict_get (edge_pct p) 0\<bar>;
          edge_factor = min (35 / 100) ((e / 100) * (175 / 100));
          base = (if has_opposing then 55 / 100 else 40 / 100)
      in max (2 / 10) (min (95 / 100) (base + edge_factor)))"

definition confidence_adjusted_prob :: "real \<Rightarrow> real \<Rightarrow> real" where
  "confidence_adjusted_prob probability confidence = 1 / 2 + (probability - 1 / 2) * confidence"

definition flex_ev :: "real list \<Rightarrow> (int \<times> real) list \<Rightarrow> real" where
  "flex_ev leg_probs payout_table =
     (let n = length leg_probs;
          p_avg = (if n \<noteq> 0 then sum_list leg_probs / of_nat n else 1 / 2)
      in fold (\<lambda>k ev.
                 let m = dict_get (map_of payout_table (int k)) 0
                 in if m = 0 then ev
                    else ev + (of_nat (n choose k) * p_avg ^ k * (1 - p_avg) ^ (n - k)) * m)
              [0..<n + 1] (- 1))"

definition leg_prob :: "opportunity \<Rightarrow> real" where
  \<comment> \<open>The body of the loop over the legs: the confidence-adjusted probability of one leg.\<close>
  "leg_prob p =
     confidence_adjusted_prob
       (no_vig_prob (dict_get (sharp_odds p) (- 110)) (opposing_odds p))
       (leg_confidence_weight p)"

definition breakeven_prob :: "real \<Rightarrow> real" where
  \<comment> \<open>\<open>1.0 / multiplier if multiplier > 0 else 1.0\<close>, written in both branches.\<close>
  "breakeven_prob multiplier = (if 0 < multiplier then 1 / multiplier else 1)"

definition calculate_slip_ev :: "opportunity list \<Rightarrow> int \<Rightarrow> string \<Rightarrow> string \<Rightarrow> SlipCandidate" where
  \<comment> \<open>\<open>max(payout_table)\<close> raises on an empty table; no table of \<open>BOOK_PAYOUTS\<close> is empty.\<close>
  "calculate_slip_ev ps slip_size bk md =
     (let payout_info = get_payout bk md slip_size;
          confidences = map leg_confidence_weight ps;
          leg_probs = map leg_prob ps;
          win_prob = fold (\<lambda>lp w. w * lp) leg_probs 1;
          (ev, display_multiplier) =
            (case payout_info of
               HitTable payout_table \<Rightarrow>
                 (flex_ev leg_probs payout_table,
                  dict_get (map_of payout_table slip_size)
                    (dict_get (map_of payout_table (Max (set (map fst payout_table)))) 0))
             | Multiplier payout_mult \<Rightarrow> (win_prob * payout_mult - 1, payout_mult))
      in \<lparr>players = ps,
          combined_edge = (win_prob - breakeven_prob display_multiplier) * 100,
          estimated_win_prob = win_prob,
          expected_value = ev,
          payout_multiplier = display_multiplier,
          avg_leg_confidence =
            (if confidences \<noteq> [] then sum_list confidences / of_nat (length confidences) else 0),
          mode = md, book = bk\<rparr>)"

definition sleeper_markets :: "(string \<times> string list) list" where
  "sleeper_markets =
     [(''nba'',
        [''player_points'', ''player_rebounds'', ''player_assists'', ''player_threes'',
         ''player_blocks'', ''player_steals'', ''player_turnovers'',
         ''player_points_rebounds_assists'', ''player_points_rebounds'',
         ''player_points_assists'', ''player_rebounds_assists'', ''player_double_double'',
         ''player_blocks_steals'', ''player_triple_double'']),
      (''nfl'',
        [''player_pass_yds'', ''player_pass_tds'', ''player_pass_completions'',
         ''player_pass_attempts'', ''player_pass_interceptions'', ''player_rush_yds'',
         ''player_rush_attempts'', ''player_rush_tds'', ''player_receptions'',
         ''player_reception_yds'', ''player_reception_tds'', ''player_rush_reception_yds'',
         ''player_rush_reception_tds'', ''player_anytime_td'', ''player_kicking_points'']),
      (''mlb'',
        [''pitcher_strikeouts'', ''pitcher_outs'', ''batter_hits'', ''batter_total_bases'',
         ''batter_rbis'', ''batter_runs_scored'', ''batter_walks'', ''batter_stolen_bases'',
         ''batter_home_runs'']),
      (''soccer'', [''player_shots'', ''player_shots_on_target'', ''player_goal_scorer_anytime''])]"

definition prizepicks_markets :: "(string \<times> string list) list" where
  "prizepicks_markets =
     AList.update ''mlb''
       (dict_get (map_of sleeper_markets ''mlb'') [] @ [''pitcher_hits_allowed'', ''pitcher_walks''])
       sleeper_markets"

definition DFS_BOOK_MARKETS :: "(string \<times> (string \<times> string list) list) list" where
  "DFS_BOOK_MARKETS =
     [(''sleeper'', sleeper_markets), (''prizepicks'', prizepicks_markets),
      (''underdog'', prizepicks_markets)]"

definition canonical_book_name :: "string \<Rightarrow> string" where
  "canonical_book_name b =
     (let raw = filter py_isalnum (py_lower b);
          aliases =
            [(''sleeper'', ''sleeper''), (''prizepicks'', ''prizepicks''),
             (''underdog'', ''underdog''), (''underdogsports'', ''underdog''),
             (''draftkings'', ''draftkings''), (''fanduel'', ''fanduel''),
             (''betmgm'', ''betmgm''), (''mgm'', ''betmgm''), (''pinnacle'', ''pinnacle''),
             (''bookmaker'', ''bookmaker'')]
      in dict_get (map_of aliases raw) raw)"

type_synonym identity = "string \<times> string \<times> string \<times> real"

definition pick_identity :: "opportunity \<Rightarrow> identity" where
  "pick_identity p =
     (py_lower (py_strip (dict_get (player_name p) [])),
      py_lower (py_strip (dict_get (market p) [])),
      py_lower (py_strip (dict_get (side p) ''over'')),
      dict_get (line p) 0)"

definition row_quality :: "opportunity \<Rightarrow> real \<times> real \<times> real" where
  "row_quality p =
     (dict_get (edge_pct p) 0, dict_get (books_used p) 0, dict_get (weight_coverage_pct p) 0)"

definition overlap_ratio :: "identity set \<Rightarrow> identity set \<Rightarrow> real" where
  "overlap_ratio a b =
     (if a = {} \<or> b = {} then 0
      else let union = card (a \<union> b)
           in if union \<le> 0 then 0 else of_nat (card (a \<inter> b)) / of_nat union)"

definition resolve_book_mode :: "string \<Rightarrow> string \<Rightarrow> string \<times> string" where
  \<comment> \<open>Lines 306 to 315: the book and the mode that the slips are priced with.\<close>
  "resolve_book_mode bk md =
     (let canonical = canonical_book_name bk;
          (canonical, md) =
            (if canonical \<noteq> ''sleeper'' then (''sleeper'', ''power'') else (canonical, md));
          book_data =
            (case map_of BOOK_PAYOUTS canonical of
               Some d \<Rightarrow> d
             | None \<Rightarrow> dict_get (map_of BOOK_PAYOUTS bk) []);
          md = (if md \<notin> set (map fst book_data) \<and> book_data \<noteq> []
                then fst (hd book_data) else md)
      in (canonical, md))"

definition is_available :: "string \<Rightarrow> string \<Rightarrow> string \<Rightarrow> opportunity \<Rightarrow> bool" where
  "is_available target bk sport opp =
     (if target = ''sleeper''
      then (case available_on_sleeper_compatible opp of
              Some flag \<Rightarrow> flag
            | None \<Rightarrow>
                dict_get (market opp) []
                  \<in> set (dict_get (map_of (dict_get (map_of DFS_BOOK_MARKETS ''sleeper'') []) sport) []))
      else if \<exists>entry \<in> set (book_odds opp). canonical_book_name entry = target then True
      else (case map_of (case map_of DFS_BOOK_MARKETS target of
                           Some m \<Rightarrow> m
                         | None \<Rightarrow> dict_get (map_of DFS_BOOK_MARKETS bk) []) sport of
              Some allowed \<Rightarrow> dict_get (market opp) [] \<in> set allowed
            | None \<Rightarrow> True))"

definition dedupe_step ::
  "opportunity \<Rightarrow> (identity \<times> opportunity) list \<Rightarrow> (identity \<times> opportunity) list" where
  "dedupe_step p deduped =
     (let key = pick_identity p
      in case map_of deduped key of
           None \<Rightarrow> AList.update key p deduped
         | Some cur \<Rightarrow>
             if row_quality cur < row_quality p then AList.update key p deduped else deduped)"

definition build_pool ::
  "opportunity list \<Rightarrow> real \<Rightarrow> string \<Rightarrow> string \<Rightarrow> string \<Rightarrow> opportunity list" where
  \<comment> \<open>Lines 339 to 352: filter, deduplicate by identity, rank by quality, cap at 24.\<close>
  "build_pool opportunities min_edge canonical bk sport =
     (let eligible =
            filter (\<lambda>p. min_edge \<le> dict_get (edge_pct p) 0 \<and> is_available canonical bk sport p)
              opportunities;
          deduped = fold dedupe_step eligible [];
          eligible = sorted_desc row_quality (map snd deduped)
      in take 24 eligible)"

fun combinations :: "'a list \<Rightarrow> nat \<Rightarrow> 'a list list" where
  \<comment> \<open>\<open>itertools.combinations\<close> for a size that is not negative, in its order.\<close>
  "combinations xs 0 = [[]]"
| "combinations [] (Suc r) = []"
| "combinations (x # xs) (Suc r) = map ((#) x) (combinations xs r) @ combinations xs (Suc r)"

definition name_key :: "opportunity \<Rightarrow> string" where
  \<comment> \<open>\<open>p.get("player_name", "").strip().lower()\<close>\<close>
  "name_key p = py_lower (py_strip (dict_get (player_name p) []))"

definition combo_step ::
  "int \<Rightarrow> string \<Rightarrow> string \<Rightarrow> opportunity list
     \<Rightarrow> identity list set \<times> SlipCandidate list \<Rightarrow> identity list set \<times> SlipCandidate list" where
  \<comment> \<open>The body of the loop over the combinations of one size, lines 363 to 371.\<close>
  "combo_step sz bk md combo st =
     (let (combo_seen, size_candidates) = st;
          player_names = map name_key combo
      in if length player_names \<noteq> card (set player_names) then (combo_seen, size_candidates)
         else let combo_key = sort (map pick_identity combo)
              in if combo_key \<in> combo_seen then (combo_seen, size_candidates)
                 else (insert combo_key combo_seen,
                       size_candidates @ [calculate_slip_ev combo sz bk md]))"

fun collect_sizes ::
  "opportunity list \<Rightarrow> int \<Rightarrow> string \<Rightarrow> string \<Rightarrow> int list \<Rightarrow> SlipCandidate list
     \<Rightarrow> error + SlipCandidate list" where
  \<comment> \<open>The loop over the requested sizes, lines 356 to 374.  \<open>combinations(pool, size)\<close>
      raises \<open>ValueError\<close> on a negative size, which neither guard of line 357 excludes.\<close>
  "collect_sizes pool top_n bk md [] all_candidates = Inr all_candidates"
| "collect_sizes pool top_n bk md (sz # sizes) all_candidates =
     (if int (length pool) < sz \<or> 6 < sz
      then collect_sizes pool top_n bk md sizes all_candidates
      else if sz < 0 then Inl ValueError
      else let size_candidates =
                 snd (fold (combo_step sz bk md) (combinations pool (nat sz)) ({}, []))
           in collect_sizes pool top_n bk md sizes
                (if size_candidates \<noteq> []
                 then all_candidates
                        @ take (nat (max 10 (top_n * 6))) (sorted_desc expected_value size_candidates)
                 else all_candidates))"

definition slip_signature :: "SlipCandidate \<Rightarrow> identity set" where
  \<comment> \<open>\<open>{_pick_identity(p) for p in cand.players}\<close>\<close>
  "slip_signature cand = set (map pick_identity (players cand))"

fun diversify ::
  "int \<Rightarrow> SlipCandidate list \<times> identity set list \<Rightarrow> SlipCandidate list
     \<Rightarrow> SlipCandidate list \<times> identity set list" where
  \<comment> \<open>The diversification loop, lines 382 to 389, on the state
      \<open>(selected, selected_sets)\<close>.\<close>
  "diversify top_n st [] = st"
| "diversify top_n (selected, selected_sets) (cand # rest) =
     (let sig = slip_signature cand
      in if \<exists>prev \<in> set selected_sets. 82 / 100 < overlap_ratio sig prev
         then diversify top_n (selected, selected_sets) rest
         else let selected = selected @ [cand];
                  selected_sets = selected_sets @ [sig]
              in if top_n \<le> int (length selected) then (selected, selected_sets)
                 else diversify top_n (selected, selected_sets) rest)"

definition fallback_fired :: "int \<Rightarrow> SlipCandidate list \<Rightarrow> bool" where
  \<comment> \<open>The test \<open>not selected\<close> of line 390, on the sorted candidates.\<close>
  "fallback_fired top_n all_candidates = (fst (diversify top_n ([], []) all_candidates) = [])"

definition select_slips :: "int \<Rightarrow> SlipCandidate list \<Rightarrow> SlipCandidate list" where
  \<comment> \<open>Lines 379 to 391: sort by expected value, diversify, fall back.\<close>
  "select_slips top_n all_candidates =
     (let all_candidates = sorted_desc expected_value all_candidates
      in if fallback_fired top_n all_candidates then py_take top_n all_candidates
         else fst (diversify top_n ([], []) all_candidates))"

record slip_leg =
  leg_player_name :: string
  leg_market :: string
  leg_line :: real
  leg_side :: string
  leg_edge_pct :: real

record slip_result =
  rank :: nat
  slip_size :: nat
  r_book :: string
  r_mode :: string
  r_players :: "slip_leg list"
  combined_edge_pct :: real
  win_probability_pct :: real
  r_payout_multiplier :: real
  expected_value_pct :: real
  r_avg_leg_confidence :: real

definition serialize_leg :: "opportunity \<Rightarrow> slip_leg" where
  "serialize_leg p =
     \<lparr>leg_player_name = dict_get (player_name p) ''Unknown'',
      leg_market = dict_get (market p) ''unknown'',
      leg_line = dict_get (line p) 0,
      leg_side = dict_get (side p) ''over'',
      leg_edge_pct = dict_get (edge_pct p) 0\<rparr>"

definition serialize_slip :: "string \<Rightarrow> string \<Rightarrow> nat \<Rightarrow> SlipCandidate \<Rightarrow> slip_result" where
  \<comment> \<open>The dict appended at lines 397 to 417 while \<open>results\<close> holds \<open>k\<close> entries.\<close>
  "serialize_slip bk md k slip =
     \<lparr>rank = k + 1,
      slip_size = length (players slip),
      r_book = bk, r_mode = md,
      r_players = map serialize_leg (players slip),
      combined_edge_pct = py_round_nd (combined_edge slip) 2,
      win_probability_pct = py_round_nd (estimated_win_prob slip * 100) 2,
      r_payout_multiplier = payout_multiplier slip,
      expected_value_pct = py_round_nd (expected_value slip * 100) 2,
      r_avg_leg_confidence = py_round_nd (avg_leg_confidence slip) 4\<rparr>"

fun serialize :: "string \<Rightarrow> string \<Rightarrow> SlipCandidate list \<Rightarrow> slip_result list \<Rightarrow> slip_result list" where
  \<comment> \<open>The serialization loop, lines 394 to 417, on the list \<open>results\<close>.\<close>
  "serialize bk md [] results = results"
| "serialize bk md (slip # rest) results =
     serialize bk md rest (results @ [serialize_slip bk md (length results) slip])"

definition priced_candidates ::
  "opportunity list \<Rightarrow> int list option \<Rightarrow> int \<Rightarrow> real \<Rightarrow> string \<Rightarrow> string \<Rightarrow> string
     \<Rightarrow> error + SlipCandidate list" where
  \<comment> \<open>Lines 303 to 374: the list \<open>all_candidates\<close>.\<close>
  "priced_candidates opportunities slip_sizes top_n min_edge bk md sport =
     (let sizes = dict_get slip_sizes [3, 4, 5, 6];
          (canonical, md) = resolve_book_mode bk md;
          pool = build_pool opportunities min_edge canonical bk sport
      in collect_sizes pool top_n (if canonical \<noteq> [] then canonical else bk) md sizes [])"

definition selected_slips ::
  "opportunity list \<Rightarrow> int list option \<Rightarrow> int \<Rightarrow> real \<Rightarrow> string \<Rightarrow> string \<Rightarrow> string
     \<Rightarrow> error + SlipCandidate list" where
  \<comment> \<open>Lines 303 to 391: the list \<open>selected\<close> that is serialized, empty when the function
      returns early at line 377.\<close>
  "selected_slips opportunities slip_sizes top_n min_edge bk md sport =
     and_then (priced_candidates opportunities slip_sizes top_n min_edge bk md sport)
       (\<lambda>all_candidates.
          if all_candidates = [] then Inr [] else Inr (select_slips top_n all_candidates))"

definition generate_top_slips ::
  "opportunity list \<Rightarrow> int list option \<Rightarrow> int \<Rightarrow> real \<Rightarrow> string \<Rightarrow> string \<Rightarrow> string
     \<Rightarrow> error + slip_result list" where
  "generate_top_slips opportunities slip_sizes top_n min_edge bk md sport =
     (let (canonical, md') = resolve_book_mode bk md
      in and_then (selected_slips opportunities slip_sizes top_n min_edge bk md sport)
           (\<lambda>selected.
              Inr (py_take top_n
                     (serialize (if canonical \<noteq> [] then canonical else bk) md' selected []))))"

section \<open>Notions used in the statements\<close>

definition implied_value :: "int \<Rightarrow> real" where
  \<comment> \<open>The probability that \<open>american_to_implied\<close> returns.\<close>
  "implied_value odds = (case american_to_implied odds of Inr p \<Rightarrow> p | Inl e \<Rightarrow> 0)"

definition diverse :: "SlipCandidate \<Rightarrow> SlipCandidate \<Rightarrow> bool" where
  \<comment> \<open>The test of line 384 did not reject the later slip \<open>b\<close> against the earlier
      slip \<open>a\<close>.\<close>
  "diverse a b = (overlap_ratio (slip_signature b) (slip_signature a) \<le> 82 / 100)"

definition priced_slip :: "string \<Rightarrow> string \<Rightarrow> SlipCandidate \<Rightarrow> bool" where
  \<comment> \<open>A candidate as line 370 builds it: priced from its own legs, for their number, and
      with no player twice.\<close>
  "priced_slip bk md c =
     (c = calculate_slip_ev (players c) (int (length (players c))) bk md
      \<and> distinct (map name_key (players c)))"

section \<open>Rows of the repository's tests\<close>

definition base_row :: "string \<Rightarrow> string \<Rightarrow> real \<Rightarrow> real \<Rightarrow> int \<Rightarrow> opportunity" where
  \<comment> \<open>\<open>_base_row(player, market, line, edge, odds)\<close> of \<open>tests/test_dfs_platform_filters.py\<close>.\<close>
  "base_row player mkt l e odds =
     \<lparr>player_name = Some player, market = Some mkt, line = Some l, side = Some ''over'',
      edge_pct = Some e, books_used = Some 2, weight_coverage_pct = Some 60,
      sharp_odds = Some odds, opposing_odds = None,
      available_on_sleeper_compatible = Some True, book_odds = [''fanduel'']\<rparr>"

definition test_opportunities :: "opportunity list" where
  \<comment> \<open>The first four rows of \<open>test_generate_slips_enforces_sleeper_and_dedupes\<close>; the
      second repeats the leg of the first with a weaker edge.\<close>
  "test_opportunities =
     [base_row ''Player A'' ''player_points'' (205 / 10) 6 (- 110),
      base_row ''Player A'' ''player_points'' (205 / 10) 3 (- 115),
      base_row ''Player B'' ''player_rebounds'' (85 / 10) 5 (- 108),
      base_row ''Player C'' ''player_assists'' (65 / 10) (45 / 10) (- 112)]"

section \<open>Basic facts\<close>

lemma and_then_Inr [simp]: "and_then (Inr v) f = f v"
  by (simp add: and_then_def)

lemma and_then_Inl [simp]: "and_then (Inl e) f = Inl e"
  by (simp add: and_then_def)

lemma py_round_floor: "\<lfloor>x\<rfloor> \<le> py_round x"
  by (simp add: py_round_def Let_def)

lemma py_round_ceiling: "py_round x \<le> \<lceil>x\<rceil>"
proof (cases "x = of_int \<lfloor>x\<rfloor>")
  case True
  then have "x - of_int \<lfloor>x\<rfloor> = 0" by simp
  then have "py_round x = \<lfloor>x\<rfloor>" by (simp add: py_round_def Let_def)
  then show ?thesis by (simp add: floor_le_ceiling)
next
  case False
  then have "\<lceil>x\<rceil> = \<lfloor>x\<rfloor> + 1" by (simp add: ceiling_altdef)
  moreover have "py_round x \<le> \<lfloor>x\<rfloor> + 1" by (simp add: py_round_def Let_def)
  ultimately show ?thesis by simp
qed

lemma py_round_dist: "\<bar>of_int (py_round x) - x\<bar> \<le> 1 / 2"
proof -
  have "of_int \<lfloor>x\<rfloor> \<le> x" "x < of_int \<lfloor>x\<rfloor> + 1" by linarith+
  then show ?thesis by (auto simp: py_round_def Let_def)
qed

lemma py_round_ge: "of_int k \<le> x \<Longrightarrow> k \<le> py_round x"
proof -
  assume "of_int k \<le> x"
  then have "k \<le> \<lfloor>x\<rfloor>" by (simp add: le_floor_iff)
  with py_round_floor [of x] show ?thesis by linarith
qed

lemma py_round_le: "x \<le> of_int k \<Longrightarrow> py_round x \<le> k"
proof -
  assume "x \<le> of_int k"
  then have "\<lceil>x\<rceil> \<le> k" by (simp add: ceiling_le_iff)
  with py_round_ceiling [of x] show ?thesis by linarith
qed

lemma py_round_nd_nonneg: "0 \<le> x \<Longrightarrow> 0 \<le> py_round_nd x n"
proof -
  assume "0 \<le> x"
  then have "of_int 0 \<le> x * 10 ^ n" by simp
  then have "0 \<le> py_round (x * 10 ^ n)" by (rule py_round_ge)
  then show ?thesis by (simp add: py_round_nd_def)
qed

lemma py_round_nd_le_int: "x \<le> of_int k \<Longrightarrow> py_round_nd x n \<le> of_int k"
proof -
  assume "x \<le> of_int k"
  then have "x * 10 ^ n \<le> of_int (k * 10 ^ n)" by simp
  then have "py_round (x * 10 ^ n) \<le> k * 10 ^ n" by (rule py_round_le)
  then have "real_of_int (py_round (x * 10 ^ n)) \<le> of_int (k * 10 ^ n)"
    by (simp only: of_int_le_iff)
  then show ?thesis by (simp add: py_round_nd_def field_simps)
qed

lemma py_round_nd_dist: "\<bar>py_round_nd x n - x\<bar> \<le> 1 / (2 * 10 ^ n)"
proof -
  define r where "r = real_of_int (py_round (x * 10 ^ n))"
  have "\<bar>r - x * 10 ^ n\<bar> \<le> 1 / 2" unfolding r_def by (rule py_round_dist)
  then have "\<bar>r - x * 10 ^ n\<bar> / 10 ^ n \<le> (1 / 2) / 10 ^ n"
    by (rule divide_right_mono) simp
  moreover have "py_round_nd x n - x = (r - x * 10 ^ n) / 10 ^ n"
    by (simp add: py_round_nd_def r_def diff_divide_distrib)
  ultimately show ?thesis by simp
qed

section \<open>The conversions and their errors\<close>

lemma american_to_implied_value: "american_to_implied odds = Inr (implied_value odds)"
  by (simp add: implied_value_def american_to_implied_def py_truediv_def)

lemma implied_value_eq:
  "implied_value odds =
     (if odds < 0 then of_int \<bar>odds\<bar> / of_int (\<bar>odds\<bar> + 100) else 100 / of_int (odds + 100))"
  by (simp add: implied_value_def american_to_implied_def py_truediv_def)

lemma float_limit_bounds: "2 ^ 53 \<le> float_limit" "10 ^ 8 < float_limit"
proof -
  have "(2::int) ^ 970 \<le> 2 ^ 1023" by (rule power_increasing) simp_all
  moreover have "(2::int) ^ 1024 = 2 * 2 ^ 1023" by simp
  ultimately have l: "(2::int) ^ 1023 \<le> float_limit" by (simp add: float_limit_def)
  have "(2::int) ^ 53 \<le> 2 ^ 1023" by (rule power_increasing) simp_all
  with l show "2 ^ 53 \<le> float_limit" by linarith
  have "(10::int) ^ 8 < 2 ^ 53" by simp
  with \<open>2 ^ 53 \<le> float_limit\<close> show "10 ^ 8 < float_limit" by linarith
qed

lemma ce_american_to_implied_eq:
  "ce_american_to_implied odds =
     (if \<bar>odds\<bar> < float_limit then Inr (implied_value odds) else Inl OverflowError)"
proof -
  have "real_of_int odds + 100 \<noteq> 0" if "\<not> odds < 0"
  proof -
    from that have "0 \<le> real_of_int odds" by simp
    then show ?thesis by linarith
  qed
  then show ?thesis
    by (auto simp add: ce_american_to_implied_def py_float_def py_truediv_def implied_value_eq)
qed

lemma ce_american_to_implied_value:
  "\<bar>odds\<bar> < float_limit \<Longrightarrow> ce_american_to_implied odds = Inr (implied_value odds)"
  by (simp add: ce_american_to_implied_eq)

lemma ce_american_to_implied_overflow:
  "float_limit \<le> \<bar>odds\<bar> \<Longrightarrow> ce_american_to_implied odds = Inl OverflowError"
  by (simp add: ce_american_to_implied_eq)

lemma implied_value_pos: "0 < implied_value odds"
  by (auto simp: implied_value_eq zero_less_divide_iff divide_less_0_iff)

lemma implied_value_le_1: "implied_value odds \<le> 1"
  by (auto simp: implied_value_eq divide_simps)

lemma implied_value_lt_1: "odds \<noteq> 0 \<Longrightarrow> implied_value odds < 1"
  by (auto simp: implied_value_eq divide_simps)

lemma implied_value_zero: "implied_value 0 = 1"
  by (simp add: implied_value_eq)

lemma implied_value_eq_1_iff: "implied_value odds = 1 \<longleftrightarrow> odds = 0"
  by (metis implied_value_lt_1 implied_value_zero less_irrefl)

lemma calculate_edge_single:
  "calculate_edge st s_odds fixed None assumed_vig =
     Inr \<lparr>sharp_prob = implied_value s_odds,
          fixed_prob = (case fixed of None \<Rightarrow> dfs_fixed_implied_prob st | Some f \<Rightarrow> f),
          opposing_prob = None,
          fair_prob = Some (py_round_nd (implied_value s_odds / (1 + max 0 assumed_vig)) 4),
          vig_pct = Some (py_round_nd (assumed_vig * 100) 2),
          edge = implied_value s_odds / (1 + max 0 assumed_vig)
                 - (case fixed of None \<Rightarrow> dfs_fixed_implied_prob st | Some f \<Rightarrow> f)\<rparr>"
proof -
  have "1 + max 0 assumed_vig \<noteq> 0" by linarith
  then show ?thesis
    by (simp add: calculate_edge_def american_to_implied_value py_truediv_def Let_def)
qed

lemma calculate_edge_two_sided:
  "calculate_edge st s_odds fixed (Some opp) assumed_vig =
     Inr \<lparr>sharp_prob = implied_value s_odds,
          fixed_prob = (case fixed of None \<Rightarrow> dfs_fixed_implied_prob st | Some f \<Rightarrow> f),
          opposing_prob = Some (py_round_nd (implied_value opp) 4),
          fair_prob =
            Some (py_round_nd (implied_value s_odds / (implied_value s_odds + implied_value opp)) 4),
          vig_pct = Some (py_round_nd ((implied_value s_odds + implied_value opp - 1) * 100) 2),
          edge = implied_value s_odds / (implied_value s_odds + implied_value opp)
                 - (case fixed of None \<Rightarrow> dfs_fixed_implied_prob st | Some f \<Rightarrow> f)\<rparr>"
proof -
  have "implied_value s_odds + implied_value opp \<noteq> 0"
    using implied_value_pos [of s_odds] implied_value_pos [of opp] by linarith
  then show ?thesis
    by (simp add: calculate_edge_def american_to_implied_value py_truediv_def Let_def)
qed

section \<open>Claims about the odds normalizer\<close>

text \<open>
  C4, as amended.  For nonzero sharp odds and no opposing odds, \<open>calculate_edge\<close> divides the
  implied probability by \<open>1 + max(0, assumed_vig)\<close>; the edge is that quotient minus the fixed
  implied probability, and the \<open>fair_prob\<close> entry is the quotient rounded to four decimals,
  so within 0.00005 of it.  For an assumed vig that is not negative the divisor is
  \<open>1 + assumed_vig\<close>.
\<close>

theorem calculate_edge_single_side_devig:
  assumes "s_odds \<noteq> 0"
    and "fx = (case fixed of None \<Rightarrow> dfs_fixed_implied_prob st | Some f \<Rightarrow> f)"
  shows "\<exists>c f. calculate_edge st s_odds fixed None assumed_vig = Inr c
           \<and> edge c = implied_value s_odds / (1 + max 0 assumed_vig) - fx
           \<and> (0 \<le> assumed_vig \<longrightarrow> edge c = implied_value s_odds / (1 + assumed_vig) - fx)
           \<and> fair_prob c = Some f
           \<and> f = py_round_nd (implied_value s_odds / (1 + max 0 assumed_vig)) 4
           \<and> \<bar>f - implied_value s_odds / (1 + max 0 assumed_vig)\<bar> \<le> 1 / 20000"
proof -
  have "\<bar>py_round_nd (implied_value s_odds / (1 + max 0 assumed_vig)) 4
          - implied_value s_odds / (1 + max 0 assumed_vig)\<bar> \<le> 1 / (2 * 10 ^ 4)"
    by (rule py_round_nd_dist)
  then show ?thesis
    by (simp add: calculate_edge_single max_def assms(2))
qed

theorem calculate_edge_single_side_devig_witness:
  "(- 110 :: int) \<noteq> 0
   \<and> (\<exists>c f. calculate_edge default_settings (- 110) None None (5 / 100) = Inr c
           \<and> edge c = implied_value (- 110) / (1 + max 0 (5 / 100)) - 545 / 1000
           \<and> edge c = implied_value (- 110) / (1 + 5 / 100) - 545 / 1000
           \<and> fair_prob c = Some f
           \<and> f = py_round_nd (implied_value (- 110) / (1 + max 0 (5 / 100))) 4
           \<and> \<bar>f - implied_value (- 110) / (1 + max 0 (5 / 100))\<bar> \<le> 1 / 20000)"
  using calculate_edge_single_side_devig
          [where s_odds = "- 110" and fixed = None and st = default_settings
             and fx = "545 / 1000" and assumed_vig = "5 / 100"]
  by (simp add: default_settings_def)

theorem calculate_edge_fair_prob_is_rounded:
  "calculate_edge default_settings (- 110) None None (5 / 100)
     = Inr \<lparr>sharp_prob = 11 / 21, fixed_prob = 109 / 200, opposing_prob = None,
            fair_prob = Some (4989 / 10000), vig_pct = Some 5, edge = - (4069 / 88200)\<rparr>
   \<and> implied_value (- 110) / (1 + 5 / 100) = 220 / 441
   \<and> (4989 / 10000 :: real) \<noteq> 220 / 441"
  by (simp add: calculate_edge_single implied_value_eq default_settings_def
      py_round_nd_def py_round_def Let_def)

text \<open>
  C2, as amended.  Edge evaluation with nonzero sharp odds always yields a PropOpportunity.
  Its \<open>fair_prob\<close> field, rounded to four decimals, lies in the closed interval from 0 to 1, and
  the fair probability before rounding (the unrounded edge plus the fixed probability) lies
  strictly between 0 and 1.  Its \<open>vig_pct\<close> field is 5 when no opposing odds are given, and with
  opposing odds it is nonnegative whenever the two implied probabilities sum to at least 1.
\<close>

theorem evaluate_prop_fair_and_vig:
  assumes "s_odds \<noteq> 0"
  shows "\<exists>po f v c. evaluate_prop st pid nm mkt l s_odds bk opp = Inr po
           \<and> po_fair_prob po = Some f \<and> 0 \<le> f \<and> f \<le> 1
           \<and> po_vig_pct po = Some v
           \<and> (opp = None \<longrightarrow> v = 5)
           \<and> (\<forall>k. opp = Some k \<and> 1 \<le> implied_value s_odds + implied_value k \<longrightarrow> 0 \<le> v)
           \<and> calculate_edge st s_odds None opp (5 / 100) = Inr c
           \<and> 0 < edge c + fixed_prob c \<and> edge c + fixed_prob c < 1"
proof (cases opp)
  case None
  define q where "q = implied_value s_odds / (1 + max 0 (5 / 100))"
  have sp: "0 < implied_value s_odds" "implied_value s_odds < 1"
    using assms by (simp_all add: implied_value_pos implied_value_lt_1)
  have q: "0 < q" "q < 1" using sp by (simp_all add: q_def)
  have r: "0 \<le> py_round_nd q 4" "py_round_nd q 4 \<le> 1"
    using q py_round_nd_nonneg [of q 4] py_round_nd_le_int [of q 1 4] by simp_all
  have v: "py_round_nd (5 / 100 * 100) 2 = 5"
    by (simp add: py_round_nd_def py_round_def Let_def)
  show ?thesis
    using None q r v
    by (simp add: evaluate_prop_def calculate_edge_single q_def)
next
  case (Some k)
  define s where "s = implied_value s_odds"
  define t where "t = implied_value k"
  have sp: "0 < s" "0 < t" by (simp_all add: s_def t_def implied_value_pos)
  have q: "0 < s / (s + t)" "s / (s + t) < 1" using sp by simp_all
  have r: "0 \<le> py_round_nd (s / (s + t)) 4" "py_round_nd (s / (s + t)) 4 \<le> 1"
    using q py_round_nd_nonneg [of "s / (s + t)" 4] py_round_nd_le_int [of "s / (s + t)" 1 4]
    by simp_all
  have v: "0 \<le> py_round_nd ((s + t - 1) * 100) 2" if "1 \<le> s + t"
    using that by (intro py_round_nd_nonneg) simp
  show ?thesis
    using Some q r v
    by (simp add: evaluate_prop_def calculate_edge_two_sided s_def t_def)
qed

theorem evaluate_prop_fair_and_vig_witness:
  "(- 110 :: int) \<noteq> 0
   \<and> (\<exists>po f v c.
         evaluate_prop default_settings ''p1'' ''Player A'' ''player_points'' (41 / 2) (- 110)
           ''pinnacle'' (Some (- 110)) = Inr po
         \<and> po_fair_prob po = Some f \<and> 0 \<le> f \<and> f \<le> 1
         \<and> po_vig_pct po = Some v
         \<and> (Some (- 110 :: int) = None \<longrightarrow> v = 5)
         \<and> (\<forall>k. Some (- 110) = Some k \<and> 1 \<le> implied_value (- 110) + implied_value k \<longrightarrow> 0 \<le> v)
         \<and> calculate_edge default_settings (- 110) None (Some (- 110)) (5 / 100) = Inr c
         \<and> 0 < edge c + fixed_prob c \<and> edge c + fixed_prob c < 1)
   \<and> (1::real) \<le> implied_value (- 110) + implied_value (- 110)"
  using evaluate_prop_fair_and_vig
          [of "- 110" default_settings "''p1''" "''Player A''" "''player_points''" "41 / 2"
              "''pinnacle''" "Some (- 110)"]
  by (simp add: implied_value_eq)

theorem evaluate_prop_negative_vig_and_zero_fair:
  "map_sum id po_vig_pct
     (evaluate_prop default_settings ''p1'' ''Player A'' ''player_points'' (41 / 2) 200
        ''pinnacle'' (Some 200)) = Inr (Some (- (3333 / 100)))
   \<and> map_sum id po_fair_prob
       (evaluate_prop default_settings ''p1'' ''Player A'' ''player_points'' (41 / 2) 1000000000
          ''pinnacle'' None) = Inr (Some 0)"
  by (simp add: evaluate_prop_def calculate_edge_single calculate_edge_two_sided
      implied_value_eq py_round_nd_def py_round_def Let_def)

section \<open>Round trip through the inverse conversion\<close>

lemma quotient_bound:
  fixes n d :: real
  assumes "\<bar>n\<bar> \<le> 50" "200 * 200 \<le> d"
  shows "\<bar>n / d\<bar> \<le> 1 / 800"
proof -
  have d: "0 < d" using assms(2) by linarith
  then have "\<bar>n / d\<bar> = \<bar>n\<bar> / d" by simp
  also have "\<dots> \<le> 50 / (200 * 200)"
    by (rule frac_le) (use assms in simp_all)
  finally show ?thesis by simp
qed

lemma implied_to_american_high:
  assumes "1 / 2 \<le> p" "p \<le> 1 - 1 / 10 ^ 6"
  shows "\<exists>a. implied_to_american p = Inr a \<and> a \<le> - 100 \<and> - (10 ^ 8) \<le> a
           \<and> \<bar>implied_value a - p\<bar> \<le> 1 / 800"
proof -
  define x where "x = 100 * p / (1 - p)"
  define a where "a = py_round (- x)"
  define y where "y = - real_of_int a"
  have p1: "0 < 1 - p" using assms by simp
  have pc: "max (1 / 10 ^ 6) (min (1 - 1 / 10 ^ 6) p) = p" using assms by simp
  have x100: "100 \<le> x"
    unfolding x_def using assms p1 by (simp add: pos_le_divide_eq)
  have px: "p = x / (x + 100)"
    unfolding x_def using p1 by (simp add: field_simps)
  have ita: "implied_to_american p = Inr a"
    using assms p1 by (simp add: implied_to_american_def pc py_truediv_def a_def x_def Let_def)
  have "- x \<le> real_of_int (- 100)" using x100 by simp
  then have a100: "a \<le> - 100" unfolding a_def by (rule py_round_le)
  have "x \<le> 10 ^ 8"
    unfolding x_def using assms p1 by (simp add: pos_divide_le_eq)
  then have "real_of_int (- (10 ^ 8)) \<le> - x" by simp
  then have abig: "- (10 ^ 8) \<le> a" unfolding a_def by (rule py_round_ge)
  have "\<bar>real_of_int a - (- x)\<bar> \<le> 1 / 2" unfolding a_def by (rule py_round_dist)
  then have yx: "\<bar>y - x\<bar> \<le> 1 / 2" unfolding y_def by linarith
  have y100: "100 \<le> y" using a100 unfolding y_def by simp
  have iv: "implied_value a = y / (y + 100)"
    using a100 by (simp add: implied_value_eq y_def)
  have d: "200 * 200 \<le> (y + 100) * (x + 100)"
    by (rule mult_mono) (use x100 y100 in simp_all)
  have n: "\<bar>100 * (y - x)\<bar> \<le> 50" using yx by argo
  have "y / (y + 100) - x / (x + 100) = (100 * (y - x)) / ((y + 100) * (x + 100))"
    using x100 y100 by (simp add: field_simps)
  then have "\<bar>y / (y + 100) - x / (x + 100)\<bar> \<le> 1 / 800"
    using quotient_bound [OF n d] by simp
  then have "\<bar>implied_value a - p\<bar> \<le> 1 / 800" using iv px by simp
  with ita a100 abig show ?thesis by blast
qed

lemma implied_to_american_low:
  assumes "1 / 10 ^ 6 \<le> p" "p < 1 / 2"
  shows "\<exists>a. implied_to_american p = Inr a \<and> 100 \<le> a \<and> a \<le> 10 ^ 8
           \<and> \<bar>implied_value a - p\<bar> \<le> 1 / 800"
proof -
  define x where "x = 100 / p - 100"
  define a where "a = py_round x"
  define y where "y = real_of_int a"
  have "(0::real) < 1 / 10 ^ 6" by simp
  with assms(1) have p0: "0 < p" by linarith
  have pc: "max (1 / 10 ^ 6) (min (1 - 1 / 10 ^ 6) p) = p" using assms by simp
  have "200 \<le> 100 / p" using assms p0 by (simp add: pos_le_divide_eq)
  then have x100: "100 \<le> x" unfolding x_def by simp
  have px: "p = 100 / (x + 100)"
    unfolding x_def using p0 by simp
  have ita: "implied_to_american p = Inr a"
    using assms p0 by (simp add: implied_to_american_def pc py_truediv_def a_def x_def Let_def)
  have "real_of_int 100 \<le> x" using x100 by simp
  then have a100: "100 \<le> a" unfolding a_def by (rule py_round_ge)
  have "100 / p \<le> 10 ^ 8" using assms p0 by (simp add: pos_divide_le_eq)
  then have "x \<le> real_of_int (10 ^ 8)" unfolding x_def by simp
  then have abig: "a \<le> 10 ^ 8" unfolding a_def by (rule py_round_le)
  have yx: "\<bar>y - x\<bar> \<le> 1 / 2" unfolding y_def a_def by (rule py_round_dist)
  have y100: "100 \<le> y" using a100 unfolding y_def by simp
  have iv: "implied_value a = 100 / (y + 100)"
    using a100 by (simp add: implied_value_eq y_def)
  have d: "200 * 200 \<le> (y + 100) * (x + 100)"
    by (rule mult_mono) (use x100 y100 in simp_all)
  have n: "\<bar>100 * (x - y)\<bar> \<le> 50" using yx by argo
  have "100 / (y + 100) - 100 / (x + 100) = (100 * (x - y)) / ((y + 100) * (x + 100))"
    using x100 y100 by (simp add: field_simps)
  then have "\<bar>100 / (y + 100) - 100 / (x + 100)\<bar> \<le> 1 / 800"
    using quotient_bound [OF n d] by simp
  then have "\<bar>implied_value a - p\<bar> \<le> 1 / 800" using iv px by simp
  with ita a100 abig show ?thesis by blast
qed

lemma implied_to_american_clamps:
  "implied_to_american p = implied_to_american (max (1 / 10 ^ 6) (min (1 - 1 / 10 ^ 6) p))"
  by (simp add: implied_to_american_def Let_def)

lemma implied_to_american_total:
  "\<exists>a. implied_to_american p = Inr a \<and> \<bar>a\<bar> \<le> 10 ^ 8
       \<and> \<bar>implied_value a - max (1 / 10 ^ 6) (min (1 - 1 / 10 ^ 6) p)\<bar> \<le> 1 / 800"
proof -
  define pc where "pc = max (1 / 10 ^ 6) (min (1 - 1 / 10 ^ 6) p)"
  have b: "1 / 10 ^ 6 \<le> pc" "pc \<le> 1 - 1 / 10 ^ 6" unfolding pc_def by simp_all
  have "\<exists>a. implied_to_american pc = Inr a \<and> \<bar>a\<bar> \<le> 10 ^ 8
          \<and> \<bar>implied_value a - pc\<bar> \<le> 1 / 800"
  proof (cases "1 / 2 \<le> pc")
    case True
    with b implied_to_american_high [of pc] obtain a where
      "implied_to_american pc = Inr a" "a \<le> - 100" "- (10 ^ 8) \<le> a"
      "\<bar>implied_value a - pc\<bar> \<le> 1 / 800"
      by blast
    moreover from this have "\<bar>a\<bar> \<le> 10 ^ 8" by linarith
    ultimately show ?thesis by blast
  next
    case False
    with b implied_to_american_low [of pc] obtain a where
      "implied_to_american pc = Inr a" "100 \<le> a" "a \<le> 10 ^ 8"
      "\<bar>implied_value a - pc\<bar> \<le> 1 / 800"
      by auto
    moreover from this have "\<bar>a\<bar> \<le> 10 ^ 8" by linarith
    ultimately show ?thesis by blast
  qed
  then show ?thesis
    using implied_to_american_clamps [of p] by (simp add: pc_def)
qed

text \<open>
  C8, as amended.  For nonzero odds of absolute value below \<open>2 ^ 53\<close>, the integers that
  convert to a float without rounding, the implied probability lies strictly between 0 and 1,
  and converting it to integer American odds and back gives a probability within 0.01 of it.
  Without a bound the conversion does not return at all: it raises \<open>OverflowError\<close> once the
  odds are too large to convert to a float.
\<close>

theorem implied_round_trip:
  assumes "odds \<noteq> 0" and "\<bar>odds\<bar> < 2 ^ 53"
  shows "\<exists>p a q. ce_american_to_implied odds = Inr p \<and> 0 < p \<and> p < 1
           \<and> implied_to_american p = Inr a
           \<and> ce_american_to_implied a = Inr q
           \<and> \<bar>q - p\<bar> \<le> 1 / 100"
proof -
  define p where "p = implied_value odds"
  have p: "0 < p" "p < 1"
    using assms(1) by (simp_all add: p_def implied_value_pos implied_value_lt_1)
  have conv: "ce_american_to_implied odds = Inr p"
    using assms(2) float_limit_bounds(1) by (simp add: ce_american_to_implied_value p_def)
  define pc where "pc = max (1 / 10 ^ 6) (min (1 - 1 / 10 ^ 6) p)"
  obtain a where a: "implied_to_american p = Inr a" "\<bar>a\<bar> \<le> 10 ^ 8"
    "\<bar>implied_value a - pc\<bar> \<le> 1 / 800"
    using implied_to_american_total [of p] unfolding pc_def by blast
  have ret: "ce_american_to_implied a = Inr (implied_value a)"
    using a(2) float_limit_bounds(2) by (simp add: ce_american_to_implied_value)
  have "\<bar>pc - p\<bar> \<le> 1 / 10 ^ 6" using p unfolding pc_def by (simp add: max_def min_def)
  with a(3) have "\<bar>implied_value a - p\<bar> \<le> 1 / 800 + 1 / 10 ^ 6" by linarith
  then have "\<bar>implied_value a - p\<bar> \<le> 1 / 100" by simp
  with p a(1) conv ret show ?thesis by blast
qed

theorem implied_round_trip_witness:
  "(- 50 :: int) \<noteq> 0 \<and> \<bar>- 50 :: int\<bar> < 2 ^ 53
   \<and> (\<exists>p a q. ce_american_to_implied (- 50) = Inr p \<and> 0 < p \<and> p < 1
           \<and> implied_to_american p = Inr a
           \<and> ce_american_to_implied a = Inr q
           \<and> \<bar>q - p\<bar> \<le> 1 / 100)
   \<and> ce_american_to_implied (- 50) = Inr (1 / 3)
   \<and> implied_to_american (1 / 3) = Inr 200
   \<and> ce_american_to_implied 200 = Inr (1 / 3)"
proof -
  have s: "\<bar>- 50 :: int\<bar> < float_limit" "\<bar>200 :: int\<bar> < float_limit"
    using float_limit_bounds(2) by simp_all
  show ?thesis
    using implied_round_trip [of "- 50"]
    by (simp add: ce_american_to_implied_value [OF s(1)] ce_american_to_implied_value [OF s(2)]
        implied_value_eq implied_to_american_def py_truediv_def py_round_def Let_def)
qed

theorem implied_probability_overflows:
  "(2 ^ 1024 :: int) \<noteq> 0 \<and> ce_american_to_implied (2 ^ 1024) = Inl OverflowError"
proof -
  have "float_limit \<le> \<bar>2 ^ 1024 :: int\<bar>" by (simp add: float_limit_def)
  then show ?thesis by (simp add: ce_american_to_implied_overflow)
qed

section \<open>The per-cell consensus\<close>

lemma weighted_sums_eq:
  "weighted_sums weights bs (a, b) =
     (if \<forall>x\<in>set bs. \<bar>snd x\<bar> < float_limit
      then Inr (a + sum_list (map (\<lambda>(bk, odds). implied_value odds * weight_of weights bk) bs),
                b + sum_list (map (\<lambda>(bk, odds). weight_of weights bk) bs))
      else Inl OverflowError)"
proof (induction bs arbitrary: a b)
  case Nil
  then show ?case by simp
next
  case (Cons x bs)
  obtain bk odds where x: "x = (bk, odds)" by (cases x)
  show ?case
  proof (cases "\<bar>odds\<bar> < float_limit")
    case True
    then show ?thesis
      by (simp add: x ce_american_to_implied_value Cons.IH Let_def algebra_simps)
  next
    case False
    then show ?thesis
      by (simp add: x ce_american_to_implied_overflow)
  qed
qed

lemma book_entries_eq:
  "book_entries weights bs =
     (if \<forall>x\<in>set bs. \<bar>snd x\<bar> < float_limit
      then Inr (map (\<lambda>(book, odds).
                  \<lparr>be_book = book, be_odds = odds, be_weight = weight_of weights book,
                   be_implied_prob_pct = py_round_nd (implied_value odds * 100) 2\<rparr>) bs)
      else Inl OverflowError)"
proof (induction bs)
  case Nil
  then show ?case by simp
next
  case (Cons x bs)
  obtain bk odds where x: "x = (bk, odds)" by (cases x)
  show ?case
  proof (cases "\<bar>odds\<bar> < float_limit")
    case True
    then show ?thesis
      by (simp add: x ce_american_to_implied_value Cons.IH)
  next
    case False
    then show ?thesis
      by (simp add: x ce_american_to_implied_overflow)
  qed
qed

lemma set_update_subset: "set (AList.update k v al) \<subseteq> insert (k, v) (set al)"
  by (induction al) auto

lemma best_step_odds:
  assumes "x \<in> set (best_step row best)"
  shows "x \<in> set best \<or> q_odds row = Some (snd x)"
proof (cases "q_odds row")
  case None
  with assms show ?thesis by (simp add: best_step_def)
next
  case (Some k)
  have "set (best_step row best) \<subseteq> insert (canonical_book (q_book row), k) (set best)"
    using set_update_subset [of "canonical_book (q_book row)" k best]
    by (auto simp add: best_step_def Let_def Some split: option.splits)
  with assms Some show ?thesis by auto
qed

lemma fold_best_step_odds:
  "x \<in> set (fold best_step rows best) \<Longrightarrow>
     x \<in> set best \<or> (\<exists>row\<in>set rows. q_odds row = Some (snd x))"
proof (induction rows arbitrary: best)
  case Nil
  then show ?case by simp
next
  case (Cons row rows)
  from Cons.prems have "x \<in> set (fold best_step rows (best_step row best))" by simp
  then have "x \<in> set (best_step row best) \<or> (\<exists>r\<in>set rows. q_odds r = Some (snd x))"
    by (rule Cons.IH)
  then show ?case using best_step_odds [of x row best] by auto
qed

lemma best_per_book_odds:
  "x \<in> set (best_per_book rows) \<Longrightarrow> \<exists>row\<in>set rows. q_odds row = Some (snd x)"
  using fold_best_step_odds [of x rows "[]"] by (simp add: best_per_book_def)

lemma best_step_distinct:
  "distinct (map fst best) \<Longrightarrow> distinct (map fst (best_step row best))"
  by (auto simp add: best_step_def Let_def distinct_update split: option.splits)

lemma fold_best_step_distinct:
  "distinct (map fst best) \<Longrightarrow> distinct (map fst (fold best_step rows best))"
  by (induction rows arbitrary: best) (simp_all add: best_step_distinct)

lemma best_per_book_distinct: "distinct (map fst (best_per_book rows))"
  by (simp add: best_per_book_def fold_best_step_distinct)

lemma weighted_books_distinct: "distinct (map fst (weighted_books weights (best_per_book rows)))"
  by (simp add: weighted_books_def distinct_map_filter best_per_book_distinct)

lemma weighted_books_positive:
  "(bk, odds) \<in> set (weighted_books weights best) \<Longrightarrow> 0 < weight_of weights bk"
  by (auto simp add: weighted_books_def)

lemma weight_of_Cons:
  "weight_of ((k0, v0) # ws) k = (if k = k0 then v0 else weight_of ws k)"
  by (simp add: weight_of_def dict_get_def)

lemma max_weight_Cons:
  "max_weight ((k0, v0) # ws) = (if 0 < v0 then v0 else 0) + max_weight ws"
  by (simp add: max_weight_def)

lemma max_weight_nonneg: "0 \<le> max_weight ws"
  by (induction ws) (auto simp add: max_weight_Cons, simp add: max_weight_def)

lemma sum_weights_le_max_weight:
  "finite K \<Longrightarrow> \<forall>k\<in>K. 0 < weight_of ws k \<Longrightarrow> sum (weight_of ws) K \<le> max_weight ws"
proof (induction ws arbitrary: K)
  case Nil
  then have "K = {}" by (auto simp add: weight_of_def dict_get_def)
  then show ?case by (simp add: max_weight_def)
next
  case (Cons kv ws)
  obtain k0 v0 where kv: "kv = (k0, v0)" by (cases kv)
  let ?K = "K - {k0}"
  have fin: "finite ?K" using Cons.prems(1) by simp
  have pos: "\<forall>k\<in>?K. 0 < weight_of ws k"
  proof
    fix k assume k: "k \<in> ?K"
    then have "0 < weight_of (kv # ws) k" using Cons.prems(2) by blast
    moreover have "k \<noteq> k0" using k by blast
    ultimately show "0 < weight_of ws k" by (simp add: kv weight_of_Cons)
  qed
  have ih: "sum (weight_of ws) ?K \<le> max_weight ws" by (rule Cons.IH [OF fin pos])
  have same: "sum (weight_of (kv # ws)) ?K = sum (weight_of ws) ?K"
    by (rule sum.cong) (auto simp add: kv weight_of_Cons)
  show ?case
  proof (cases "k0 \<in> K")
    case True
    then have v0: "0 < v0" using Cons.prems(2) by (auto simp add: kv weight_of_Cons)
    have "sum (weight_of (kv # ws)) K = weight_of (kv # ws) k0 + sum (weight_of (kv # ws)) ?K"
      using Cons.prems(1) True by (rule sum.remove)
    also have "\<dots> = v0 + sum (weight_of ws) ?K" by (simp add: same) (simp add: kv weight_of_Cons)
    finally show ?thesis using ih v0 by (simp add: kv max_weight_Cons)
  next
    case False
    then have "?K = K" by auto
    with same ih show ?thesis by (simp add: kv max_weight_Cons)
  qed
qed

lemma weighted_mean_lower:
  fixes f w :: "'a \<Rightarrow> real"
  assumes "\<forall>x\<in>set xs. 0 \<le> w x" "\<forall>x\<in>set xs. m \<le> f x"
  shows "m * sum_list (map w xs) \<le> sum_list (map (\<lambda>x. f x * w x) xs)"
  using assms
proof (induction xs)
  case Nil
  then show ?case by simp
next
  case (Cons x xs)
  have "m * w x \<le> f x * w x" using Cons.prems by (simp add: mult_right_mono)
  moreover have "m * sum_list (map w xs) \<le> sum_list (map (\<lambda>x. f x * w x) xs)"
    using Cons by simp
  ultimately show ?case by (simp add: distrib_left)
qed

lemma weighted_mean_upper:
  fixes f w :: "'a \<Rightarrow> real"
  assumes "\<forall>x\<in>set xs. 0 \<le> w x" "\<forall>x\<in>set xs. f x \<le> m"
  shows "sum_list (map (\<lambda>x. f x * w x) xs) \<le> m * sum_list (map w xs)"
  using assms
proof (induction xs)
  case Nil
  then show ?case by simp
next
  case (Cons x xs)
  have "f x * w x \<le> m * w x" using Cons.prems by (simp add: mult_right_mono)
  moreover have "sum_list (map (\<lambda>x. f x * w x) xs) \<le> m * sum_list (map w xs)"
    using Cons by simp
  ultimately show ?case by (simp add: distrib_left)
qed

lemma consensus_from_rows_none:
  assumes "weighted_books weights (best_per_book rows) = []"
  shows "consensus_from_rows rows weights = Inr None"
  using assms by (simp add: consensus_from_rows_def Let_def)

lemma consensus_from_rows_overflow:
  assumes ne: "weighted_books weights (best_per_book rows) \<noteq> []"
    and big: "\<exists>x\<in>set (best_per_book rows). float_limit \<le> \<bar>snd x\<bar>"
  shows "consensus_from_rows rows weights = Inl OverflowError"
proof -
  define best where "best = best_per_book rows"
  define wb where "wb = weighted_books weights best"
  have bne: "best \<noteq> []" using big by (auto simp add: best_def)
  have wne: "wb \<noteq> []" using ne by (simp add: wb_def best_def)
  have be: "book_entries weights best = Inl OverflowError"
    using big by (subst book_entries_eq) (auto simp add: best_def not_less)
  show ?thesis
  proof (cases "\<forall>x\<in>set wb. \<bar>snd x\<bar> < float_limit")
    case True
    then obtain s where ws: "weighted_sums weights wb (0, 0) = Inr s"
      by (simp add: weighted_sums_eq)
    show ?thesis
      unfolding consensus_from_rows_def Let_def best_def [symmetric] wb_def [symmetric]
      using bne wne by (simp add: ws be case_prod_unfold)
  next
    case False
    then have ws: "weighted_sums weights wb (0, 0) = Inl OverflowError"
      by (simp add: weighted_sums_eq)
    show ?thesis
      unfolding consensus_from_rows_def Let_def best_def [symmetric] wb_def [symmetric]
      using bne wne by (simp add: ws)
  qed
qed

lemma consensus_from_rows_cases:
  fixes rows weights
  defines "wb \<equiv> weighted_books weights (best_per_book rows)"
  defines "s1 \<equiv> sum_list (map (\<lambda>(bk, odds). implied_value odds * weight_of weights bk) wb)"
  defines "s2 \<equiv> sum_list (map (\<lambda>(bk, odds). weight_of weights bk) wb)"
  assumes bounded: "\<forall>x\<in>set (best_per_book rows). \<bar>snd x\<bar> < float_limit"
  shows "consensus_from_rows rows weights = Inr None
         \<or> (\<exists>c. consensus_from_rows rows weights = Inr (Some c)
                \<and> wb \<noteq> [] \<and> 0 < s2
                \<and> consensus_prob c = s1 / s2
                \<and> cs_weight_coverage_pct c =
                    (if 0 < max_weight weights then py_round_nd (s2 / max_weight weights * 100) 2
                     else 0))"
proof -
  have wbb: "\<forall>x\<in>set wb. \<bar>snd x\<bar> < float_limit"
    using bounded by (simp add: wb_def weighted_books_def)
  have ws: "weighted_sums weights wb (0, 0) = Inr (s1, s2)"
    using wbb by (simp add: weighted_sums_eq s1_def s2_def)
  obtain es where es: "book_entries weights (best_per_book rows) = Inr es"
    using bounded by (simp add: book_entries_eq)
  obtain a where a: "implied_to_american (s1 / s2) = Inr a"
    using implied_to_american_total by blast
  show ?thesis
    unfolding consensus_from_rows_def Let_def
    by (simp add: ws es a py_truediv_def wb_def [symmetric])
qed

lemma consensus_from_rows_returns:
  "(\<exists>r. consensus_from_rows rows weights = Inr r)
   \<or> consensus_from_rows rows weights = Inl OverflowError"
proof (cases "weighted_books weights (best_per_book rows) = []")
  case True
  then show ?thesis by (simp add: consensus_from_rows_none)
next
  case False
  show ?thesis
  proof (cases "\<forall>x\<in>set (best_per_book rows). \<bar>snd x\<bar> < float_limit")
    case True
    then show ?thesis using consensus_from_rows_cases [of rows weights] by blast
  next
    case False
    then have "\<exists>x\<in>set (best_per_book rows). float_limit \<le> \<bar>snd x\<bar>" by (auto simp add: not_less)
    with \<open>weighted_books weights (best_per_book rows) \<noteq> []\<close> show ?thesis
      by (simp add: consensus_from_rows_overflow)
  qed
qed

text \<open>
  C5.  Whenever the per-cell consensus produces a result, the consensus probability lies
  between the least and the greatest implied probability of the contributing books (those of
  positive weight), and \<open>weight_coverage_pct\<close> lies between 0 and 100.
\<close>

theorem consensus_within_hull:
  assumes "consensus_from_rows rows weights = Inr (Some c)"
  shows "\<exists>ps. map (\<lambda>(bk, odds). ce_american_to_implied odds)
                (weighted_books weights (best_per_book rows)) = map Inr ps
           \<and> ps \<noteq> []
           \<and> Min (set ps) \<le> consensus_prob c \<and> consensus_prob c \<le> Max (set ps)
           \<and> 0 \<le> cs_weight_coverage_pct c \<and> cs_weight_coverage_pct c \<le> 100"
proof -
  define wb where "wb = weighted_books weights (best_per_book rows)"
  define f where "f = (\<lambda>(bk :: string, odds). implied_value odds)"
  define w where "w = (\<lambda>(bk, odds :: int). weight_of weights bk)"
  define s1 where "s1 = sum_list (map (\<lambda>x. f x * w x) wb)"
  define s2 where "s2 = sum_list (map w wb)"
  define ps where "ps = map f wb"
  have fw: "(\<lambda>(bk, odds). implied_value odds * weight_of weights bk) = (\<lambda>x. f x * w x)"
    by (auto simp add: f_def w_def)
  have s1eq: "sum_list (map (\<lambda>(bk, odds). implied_value odds * weight_of weights bk) wb) = s1"
    unfolding s1_def fw ..
  have s2eq: "sum_list (map (\<lambda>(bk, odds). weight_of weights bk) wb) = s2"
    unfolding s2_def w_def ..
  have wne: "weighted_books weights (best_per_book rows) \<noteq> []"
    using assms consensus_from_rows_none [of weights rows] by auto
  have bounded: "\<forall>x\<in>set (best_per_book rows). \<bar>snd x\<bar> < float_limit"
  proof (rule ccontr)
    assume "\<not> ?thesis"
    then have "\<exists>x\<in>set (best_per_book rows). float_limit \<le> \<bar>snd x\<bar>"
      by (auto simp add: not_less)
    with wne assms show False by (simp add: consensus_from_rows_overflow)
  qed
  have wbb: "\<forall>x\<in>set wb. \<bar>snd x\<bar> < float_limit"
    using bounded by (simp add: wb_def weighted_books_def)
  from consensus_from_rows_cases [OF bounded, of weights] assms
  have "wb \<noteq> [] \<and> 0 < s2 \<and> consensus_prob c = s1 / s2
        \<and> cs_weight_coverage_pct c =
            (if 0 < max_weight weights then py_round_nd (s2 / max_weight weights * 100) 2 else 0)"
    unfolding wb_def [symmetric] s1eq s2eq by auto
  then have ne: "wb \<noteq> []" and s2: "0 < s2" and cp: "consensus_prob c = s1 / s2"
    and cov: "cs_weight_coverage_pct c =
      (if 0 < max_weight weights then py_round_nd (s2 / max_weight weights * 100) 2 else 0)"
    by blast+
  have wpos: "\<forall>x\<in>set wb. 0 \<le> w x"
    using weighted_books_positive [of _ _ weights "best_per_book rows"]
    by (auto simp add: w_def wb_def less_imp_le)
  have psne: "ps \<noteq> []" using ne by (simp add: ps_def)
  have "\<forall>x\<in>set wb. Min (set ps) \<le> f x" by (simp add: ps_def)
  then have "Min (set ps) * s2 \<le> s1"
    unfolding s1_def s2_def using wpos by (intro weighted_mean_lower) auto
  then have lo: "Min (set ps) \<le> consensus_prob c"
    using s2 by (simp add: cp pos_le_divide_eq)
  have "\<forall>x\<in>set wb. f x \<le> Max (set ps)" by (simp add: ps_def)
  then have "s1 \<le> Max (set ps) * s2"
    unfolding s1_def s2_def using wpos by (intro weighted_mean_upper) auto
  then have hi: "consensus_prob c \<le> Max (set ps)"
    using s2 by (simp add: cp pos_divide_le_eq)
  have conv: "map (\<lambda>(bk, odds). ce_american_to_implied odds) wb = map Inr ps"
    using wbb by (auto simp add: ps_def f_def ce_american_to_implied_value)
  define ks where "ks = map fst wb"
  have dks: "distinct ks"
    using weighted_books_distinct [of weights rows] by (simp add: ks_def wb_def)
  have "s2 = sum_list (map (weight_of weights) ks)"
    unfolding s2_def w_def ks_def by (simp add: case_prod_unfold comp_def)
  also have "\<dots> = sum (weight_of weights) (set ks)"
    using dks by (rule sum_list_distinct_conv_sum_set)
  also have "\<dots> \<le> max_weight weights"
  proof (rule sum_weights_le_max_weight)
    show "finite (set ks)" by simp
    show "\<forall>k\<in>set ks. 0 < weight_of weights k"
      using weighted_books_positive [of _ _ weights "best_per_book rows"]
      by (auto simp add: wb_def ks_def)
  qed
  finally have le: "s2 \<le> max_weight weights" .
  have c0: "0 \<le> cs_weight_coverage_pct c"
    using s2 le by (auto simp add: cov intro!: py_round_nd_nonneg)
  have c100: "cs_weight_coverage_pct c \<le> 100"
  proof (cases "0 < max_weight weights")
    case True
    then have "s2 / max_weight weights * 100 \<le> real_of_int 100"
      using le by (simp add: pos_divide_le_eq)
    then have "py_round_nd (s2 / max_weight weights * 100) 2 \<le> real_of_int 100"
      by (rule py_round_nd_le_int)
    then show ?thesis using True by (simp add: cov)
  next
    case False
    then show ?thesis by (simp add: cov)
  qed
  from conv psne lo hi c0 c100 show ?thesis unfolding wb_def by blast
qed

theorem consensus_within_hull_witness:
  "consensus_from_rows
     [\<lparr>q_book = ''bookmaker'', q_odds = Some (- 110)\<rparr>, \<lparr>q_book = ''FanDuel'', q_odds = Some (- 120)\<rparr>]
     [(''bookmaker'', 4), (''fanduel'', 6)]
     = Inr (Some \<lparr>consensus_prob = 124 / 231, consensus_odds = - 116,
                   cs_books =
                     [\<lparr>be_book = ''fanduel'', be_odds = - 120, be_weight = 6,
                       be_implied_prob_pct = 1091 / 20\<rparr>,
                      \<lparr>be_book = ''bookmaker'', be_odds = - 110, be_weight = 4,
                       be_implied_prob_pct = 2619 / 50\<rparr>],
                   cs_books_used = 2, cs_total_weight = 10, cs_weight_coverage_pct = 100,
                   cs_available_books = [''fanduel'', ''bookmaker'']\<rparr>)
   \<and> (\<exists>ps. map (\<lambda>(bk, odds). ce_american_to_implied odds)
               (weighted_books [(''bookmaker'', 4), (''fanduel'', 6)]
                  (best_per_book
                     [\<lparr>q_book = ''bookmaker'', q_odds = Some (- 110)\<rparr>,
                      \<lparr>q_book = ''FanDuel'', q_odds = Some (- 120)\<rparr>])) = map Inr ps
          \<and> ps \<noteq> []
          \<and> Min (set ps) \<le> (124 / 231 :: real) \<and> (124 / 231 :: real) \<le> Max (set ps)
          \<and> (0::real) \<le> 100 \<and> (100::real) \<le> 100)"
proof -
  have e: "consensus_from_rows
     [\<lparr>q_book = ''bookmaker'', q_odds = Some (- 110)\<rparr>, \<lparr>q_book = ''FanDuel'', q_odds = Some (- 120)\<rparr>]
     [(''bookmaker'', 4), (''fanduel'', 6)]
     = Inr (Some \<lparr>consensus_prob = 124 / 231, consensus_odds = - 116,
                   cs_books =
                     [\<lparr>be_book = ''fanduel'', be_odds = - 120, be_weight = 6,
                       be_implied_prob_pct = 1091 / 20\<rparr>,
                      \<lparr>be_book = ''bookmaker'', be_odds = - 110, be_weight = 4,
                       be_implied_prob_pct = 2619 / 50\<rparr>],
                   cs_books_used = 2, cs_total_weight = 10, cs_weight_coverage_pct = 100,
                   cs_available_books = [''fanduel'', ''bookmaker'']\<rparr>)"
    by code_simp
  show ?thesis
    using consensus_within_hull [OF e] e by simp
qed

text \<open>
  C1, as amended.  The conversion of \<open>strategy_engine.py\<close> is total over all integers and
  never raises, with a result between 0 and 1.  The copy of \<open>consensus_engine.py\<close> returns the
  same probability for odds of absolute value below the float limit \<open>2 ^ 1024 - 2 ^ 970\<close> and
  raises \<open>OverflowError\<close> from there on.  For odds of absolute value below \<open>2 ^ 53\<close> the
  probability is greater than 0 and at most 1, and it is 1 exactly at odds 0.  Neither batch
  aborts on a zero-odds quote nor rejects it: edge evaluation prices it like any other quote,
  and the per-cell consensus keeps it as the price of its book; the consensus skips on its own
  only a quote whose odds do not parse.  The per-cell consensus raises nothing but
  \<open>OverflowError\<close>: it returns whenever all parsed odds are below the float limit, and it
  aborts when some book has positive weight and the kept odds of some book reach the limit.
\<close>

theorem conversion_total_zero_odds_kept:
  "(\<exists>p. american_to_implied odds = Inr p \<and> 0 \<le> p \<and> p \<le> 1
        \<and> ce_american_to_implied odds
            = (if \<bar>odds\<bar> < float_limit then Inr p else Inl OverflowError)
        \<and> (\<bar>odds\<bar> < 2 ^ 53 \<longrightarrow> 0 < p \<and> (p = 1 \<longleftrightarrow> odds = 0)))
   \<and> (\<exists>po. evaluate_prop st pid nm mkt l 0 bk opp = Inr po)
   \<and> ((\<exists>r. consensus_from_rows rows weights = Inr r)
        \<or> consensus_from_rows rows weights = Inl OverflowError)
   \<and> ((\<forall>row\<in>set rows. \<forall>k. q_odds row = Some k \<longrightarrow> \<bar>k\<bar> < float_limit)
        \<longrightarrow> (\<exists>r. consensus_from_rows rows weights = Inr r))
   \<and> (weighted_books weights (best_per_book rows) \<noteq> []
          \<and> (\<exists>x\<in>set (best_per_book rows). float_limit \<le> \<bar>snd x\<bar>)
        \<longrightarrow> consensus_from_rows rows weights = Inl OverflowError)
   \<and> best_step \<lparr>q_book = b, q_odds = None\<rparr> best = best
   \<and> map_of (best_step \<lparr>q_book = b, q_odds = Some 0\<rparr> best) (canonical_book b) = Some 0"
proof -
  have 1: "\<exists>p. american_to_implied odds = Inr p \<and> 0 \<le> p \<and> p \<le> 1
        \<and> ce_american_to_implied odds
            = (if \<bar>odds\<bar> < float_limit then Inr p else Inl OverflowError)
        \<and> (\<bar>odds\<bar> < 2 ^ 53 \<longrightarrow> 0 < p \<and> (p = 1 \<longleftrightarrow> odds = 0))"
    using implied_value_pos [of odds]
    by (simp add: american_to_implied_value ce_american_to_implied_eq less_imp_le
        implied_value_le_1 implied_value_eq_1_iff)
  have 2: "(\<exists>r. consensus_from_rows rows weights = Inr r)
        \<or> consensus_from_rows rows weights = Inl OverflowError"
    by (rule consensus_from_rows_returns)
  have 3: "\<exists>r. consensus_from_rows rows weights = Inr r"
    if h: "\<forall>row\<in>set rows. \<forall>k. q_odds row = Some k \<longrightarrow> \<bar>k\<bar> < float_limit"
  proof -
    have "\<forall>x\<in>set (best_per_book rows). \<bar>snd x\<bar> < float_limit"
      using best_per_book_odds [of _ rows] h by blast
    then show ?thesis using consensus_from_rows_cases [of rows weights] by blast
  qed
  have 4: "consensus_from_rows rows weights = Inl OverflowError"
    if "weighted_books weights (best_per_book rows) \<noteq> []
          \<and> (\<exists>x\<in>set (best_per_book rows). float_limit \<le> \<bar>snd x\<bar>)"
    using that by (simp add: consensus_from_rows_overflow)
  have 5: "best_step \<lparr>q_book = b, q_odds = None\<rparr> best = best"
    by (simp add: best_step_def)
  have 6: "map_of (best_step \<lparr>q_book = b, q_odds = Some 0\<rparr> best) (canonical_book b) = Some 0"
    by (auto simp add: best_step_def Let_def update_conv' split: option.splits)
  have 7: "\<exists>po. evaluate_prop st pid nm mkt l 0 bk opp = Inr po"
    by (cases opp) (simp_all add: evaluate_prop_def calculate_edge_single calculate_edge_two_sided)
  from 1 2 3 4 5 6 7 show ?thesis by blast
qed

theorem conversion_total_zero_odds_kept_witness:
  "\<bar>- 110 :: int\<bar> < 2 ^ 53
   \<and> (\<exists>p. american_to_implied (- 110) = Inr p \<and> ce_american_to_implied (- 110) = Inr p
          \<and> 0 < p \<and> p < 1)
   \<and> float_limit \<le> \<bar>2 ^ 1024\<bar>
   \<and> (\<exists>p. american_to_implied (2 ^ 1024) = Inr p)
   \<and> ce_american_to_implied (2 ^ 1024) = Inl OverflowError
   \<and> (\<exists>po. evaluate_prop default_settings ''p1'' ''Player A'' ''player_points'' (205 / 10) 0
               ''pinnacle'' None = Inr po)
   \<and> (\<exists>r. consensus_from_rows
              [\<lparr>q_book = ''FanDuel'', q_odds = Some 0\<rparr>, \<lparr>q_book = ''pinnacle'', q_odds = None\<rparr>]
              DEFAULT_WEIGHTS = Inr r)
   \<and> consensus_from_rows [\<lparr>q_book = ''fanduel'', q_odds = Some (2 ^ 1024)\<rparr>] DEFAULT_WEIGHTS
       = Inl OverflowError
   \<and> best_step \<lparr>q_book = ''FanDuel'', q_odds = None\<rparr> [(''fanduel'', - 120)] = [(''fanduel'', - 120)]
   \<and> map_of (best_step \<lparr>q_book = ''FanDuel'', q_odds = Some 0\<rparr> [(''fanduel'', - 120)])
        (canonical_book ''FanDuel'') = Some 0"
proof -
  note small = conversion_total_zero_odds_kept
    [where odds = "- 110" and st = default_settings and pid = "''p1''" and nm = "''Player A''"
       and mkt = "''player_points''" and l = "205 / 10" and bk = "''pinnacle''" and opp = None
       and rows = "[\<lparr>q_book = ''FanDuel'', q_odds = Some 0\<rparr>, \<lparr>q_book = ''pinnacle'', q_odds = None\<rparr>]"
       and weights = DEFAULT_WEIGHTS and b = "''FanDuel''" and best = "[(''fanduel'', - 120)]"]
  note large = conversion_total_zero_odds_kept
    [where odds = "2 ^ 1024" and st = default_settings and pid = "''p1''" and nm = "''Player A''"
       and mkt = "''player_points''" and l = "205 / 10" and bk = "''pinnacle''" and opp = None
       and rows = "[\<lparr>q_book = ''fanduel'', q_odds = Some (2 ^ 1024)\<rparr>]"
       and weights = DEFAULT_WEIGHTS and b = "''FanDuel''" and best = "[(''fanduel'', - 120)]"]
  have lim: "float_limit \<le> \<bar>2 ^ 1024 :: int\<bar>" by (simp add: float_limit_def)
  have z: "\<bar>- 110 :: int\<bar> < float_limit" "(0 :: int) < float_limit"
    using float_limit_bounds(2) by simp_all
  have cb: "canonical_book ''fanduel'' = ''fanduel''" by code_simp
  have bp: "best_per_book [\<lparr>q_book = ''fanduel'', q_odds = Some (2 ^ 1024)\<rparr>]
              = [(''fanduel'', 2 ^ 1024)]"
    by (simp add: best_per_book_def best_step_def cb)
  have wb: "weighted_books DEFAULT_WEIGHTS [(''fanduel'', 2 ^ 1024)] = [(''fanduel'', 2 ^ 1024)]"
    by (simp add: weighted_books_def weight_of_def DEFAULT_WEIGHTS_def dict_get_def)
  have 1: "\<bar>- 110 :: int\<bar> < 2 ^ 53" by simp
  from small 1 z(1) have 2: "\<exists>p. american_to_implied (- 110) = Inr p
      \<and> ce_american_to_implied (- 110) = Inr p \<and> 0 < p \<and> p < 1"
    by (auto simp add: less_le)
  from large have 3: "\<exists>p. american_to_implied (2 ^ 1024) = Inr p" by blast
  from large lim have 4: "ce_american_to_implied (2 ^ 1024) = Inl OverflowError"
    by (auto simp add: not_less [symmetric])
  from small have 5: "\<exists>po. evaluate_prop default_settings ''p1'' ''Player A'' ''player_points''
      (205 / 10) 0 ''pinnacle'' None = Inr po"
    by blast
  from small z(2) have 6: "\<exists>r. consensus_from_rows
      [\<lparr>q_book = ''FanDuel'', q_odds = Some 0\<rparr>, \<lparr>q_book = ''pinnacle'', q_odds = None\<rparr>]
      DEFAULT_WEIGHTS = Inr r"
    by simp
  have hyp: "weighted_books DEFAULT_WEIGHTS
        (best_per_book [\<lparr>q_book = ''fanduel'', q_odds = Some (2 ^ 1024)\<rparr>]) \<noteq> []
      \<and> (\<exists>x\<in>set (best_per_book [\<lparr>q_book = ''fanduel'', q_odds = Some (2 ^ 1024)\<rparr>]).
            float_limit \<le> \<bar>snd x\<bar>)"
    unfolding bp wb using lim by simp
  from large have "weighted_books DEFAULT_WEIGHTS
        (best_per_book [\<lparr>q_book = ''fanduel'', q_odds = Some (2 ^ 1024)\<rparr>]) \<noteq> []
      \<and> (\<exists>x\<in>set (best_per_book [\<lparr>q_book = ''fanduel'', q_odds = Some (2 ^ 1024)\<rparr>]).
            float_limit \<le> \<bar>snd x\<bar>)
      \<longrightarrow> consensus_from_rows
            [\<lparr>q_book = ''fanduel'', q_odds = Some (2 ^ 1024)\<rparr>] DEFAULT_WEIGHTS
          = Inl OverflowError"
    by blast
  from this hyp have 7: "consensus_from_rows
      [\<lparr>q_book = ''fanduel'', q_odds = Some (2 ^ 1024)\<rparr>] DEFAULT_WEIGHTS = Inl OverflowError"
    by (rule mp)
  from small have 8: "best_step \<lparr>q_book = ''FanDuel'', q_odds = None\<rparr> [(''fanduel'', - 120)]
      = [(''fanduel'', - 120)]"
    by blast
  from small have 9: "map_of (best_step \<lparr>q_book = ''FanDuel'', q_odds = Some 0\<rparr>
      [(''fanduel'', - 120)]) (canonical_book ''FanDuel'') = Some 0"
    by blast
  from 1 2 lim 3 4 5 6 7 8 9 show ?thesis by blast
qed

theorem zero_odds_is_priced_not_rejected:
  "american_to_implied 0 = Inr 1
   \<and> ce_american_to_implied 0 = Inr 1
   \<and> map_sum id (map_option consensus_prob)
       (consensus_from_rows [\<lparr>q_book = ''fanduel'', q_odds = Some 0\<rparr>] DEFAULT_WEIGHTS)
     = Inr (Some 1)"
  by code_simp

section \<open>Pricing of one slip\<close>

lemma sleeper_power_table:
  "map (\<lambda>n. (n, Multiplier (py_round_nd ((175 / 100) ^ nat n) 2))) [2..6] =
     [(2, Multiplier (306 / 100)), (3, Multiplier (536 / 100)), (4, Multiplier (938 / 100)),
      (5, Multiplier (1641 / 100)), (6, Multiplier (2872 / 100))]"
  by code_simp

lemma get_payout_sleeper_power:
  "get_payout ''sleeper'' ''power'' n =
     Multiplier (if n = 2 then 306 / 100 else if n = 3 then 536 / 100 else if n = 4 then 938 / 100
                 else if n = 5 then 1641 / 100 else if n = 6 then 2872 / 100 else 2)"
  unfolding get_payout_def BOOK_PAYOUTS_def sleeper_power_table
  by (simp add: LEGACY_PAYOUTS_def dict_get_def)

lemma book_payouts_positive:
  "\<forall>(bk, book_data) \<in> set BOOK_PAYOUTS. \<forall>(md, mode_data) \<in> set book_data.
     \<forall>(n, p) \<in> set mode_data. (case p of Multiplier m \<Rightarrow> 0 < m | HitTable t \<Rightarrow> True)"
  unfolding BOOK_PAYOUTS_def sleeper_power_table by simp

lemma get_payout_multiplier_pos:
  assumes "get_payout bk md n = Multiplier m"
  shows "0 < m"
proof -
  define book_data where "book_data = dict_get (map_of BOOK_PAYOUTS bk) []"
  define mode_data where "mode_data = dict_get (map_of book_data md) []"
  have legacy: "0 < dict_get (map_of LEGACY_PAYOUTS n) 2"
    by (simp add: LEGACY_PAYOUTS_def dict_get_def)
  show ?thesis
  proof (cases "map_of mode_data n")
    case None
    then have "get_payout bk md n = Multiplier (dict_get (map_of LEGACY_PAYOUTS n) 2)"
      by (simp add: get_payout_def Let_def dict_get_def book_data_def mode_data_def)
    with assms legacy show ?thesis by simp
  next
    case (Some p)
    then have ne: "mode_data \<noteq> []" by auto
    then have gp: "get_payout bk md n = p"
      using Some by (simp add: get_payout_def Let_def dict_get_def book_data_def mode_data_def)
    have in3: "(n, p) \<in> set mode_data" using Some by (rule map_of_SomeD)
    have "map_of book_data md = Some mode_data"
      using ne by (cases "map_of book_data md") (simp_all add: mode_data_def dict_get_def)
    then have in2: "(md, mode_data) \<in> set book_data" by (rule map_of_SomeD)
    then have "book_data \<noteq> []" by auto
    then have "map_of BOOK_PAYOUTS bk = Some book_data"
      by (cases "map_of BOOK_PAYOUTS bk") (simp_all add: book_data_def dict_get_def)
    then have in1: "(bk, book_data) \<in> set BOOK_PAYOUTS" by (rule map_of_SomeD)
    from book_payouts_positive in1 in2 in3
    have "case p of Multiplier m \<Rightarrow> 0 < m | HitTable t \<Rightarrow> True" by fast
    with gp assms show ?thesis by auto
  qed
qed

lemma fold_product: "fold (\<lambda>lp w. w * lp) xs (a :: real) = a * prod_list xs"
  by (induction xs arbitrary: a) (simp_all add: mult.assoc)

lemma calculate_slip_ev_players [simp]: "players (calculate_slip_ev ps n bk md) = ps"
  by (simp add: calculate_slip_ev_def Let_def split: payout.splits prod.splits)

lemma calculate_slip_ev_win_prob:
  "estimated_win_prob (calculate_slip_ev ps n bk md) = prod_list (map leg_prob ps)"
  by (simp add: calculate_slip_ev_def Let_def fold_product split: payout.splits prod.splits)

lemma calculate_slip_ev_multiplier:
  assumes "get_payout bk md n = Multiplier m"
  shows "calculate_slip_ev ps n bk md =
           \<lparr>players = ps,
            combined_edge = (prod_list (map leg_prob ps) - breakeven_prob m) * 100,
            estimated_win_prob = prod_list (map leg_prob ps),
            expected_value = prod_list (map leg_prob ps) * m - 1,
            payout_multiplier = m,
            avg_leg_confidence =
              (if ps \<noteq> [] then sum_list (map leg_confidence_weight ps) / of_nat (length ps) else 0),
            mode = md, book = bk\<rparr>"
  using assms by (simp add: calculate_slip_ev_def Let_def fold_product)

lemma base_row_fields [simp]:
  "player_name (base_row nm mk l e k) = Some nm"
  "market (base_row nm mk l e k) = Some mk"
  "line (base_row nm mk l e k) = Some l"
  "side (base_row nm mk l e k) = Some ''over''"
  "edge_pct (base_row nm mk l e k) = Some e"
  "sharp_odds (base_row nm mk l e k) = Some k"
  "opposing_odds (base_row nm mk l e k) = None"
  by (simp_all add: base_row_def)

lemma leg_confidence_weight_base_row:
  "leg_confidence_weight (base_row nm mk l e k) =
     max (2 / 10) (min (95 / 100) (40 / 100 + min (35 / 100) (\<bar>e\<bar> / 100 * (175 / 100))))"
  by (simp add: leg_confidence_weight_def dict_get_def Let_def)

lemma leg_prob_base_row:
  "leg_prob (base_row nm mk l e k) =
     confidence_adjusted_prob (american_to_implied_prob k)
       (max (2 / 10) (min (95 / 100) (40 / 100 + min (35 / 100) (\<bar>e\<bar> / 100 * (175 / 100)))))"
  by (simp add: leg_prob_def no_vig_prob_def leg_confidence_weight_base_row dict_get_def)

text \<open>
  C6.  When the payout of the book, mode and size is a scalar multiplier \<open>m\<close>, the slip's
  win probability is the product of the confidence-adjusted leg probabilities, its expected
  value is the win probability times \<open>m\<close> minus 1, and its breakeven probability is \<open>1 / m\<close>
  (the combined edge is the win probability minus \<open>1 / m\<close>, in percent).  In particular
  three legs of adjusted probability 0.6 under the multiplier 5 give the win probability
  0.216, an expected value of 8 percent and the breakeven probability 0.2.
\<close>

theorem power_slip_expected_value:
  assumes "get_payout bk md n = Multiplier m"
    and "c = calculate_slip_ev ps n bk md"
  shows "estimated_win_prob c = prod_list (map leg_prob ps)
         \<and> (\<forall>p. leg_prob p =
                  confidence_adjusted_prob
                    (no_vig_prob (dict_get (sharp_odds p) (- 110)) (opposing_odds p))
                    (leg_confidence_weight p))
         \<and> expected_value c = estimated_win_prob c * m - 1
         \<and> payout_multiplier c = m
         \<and> breakeven_prob m = 1 / m
         \<and> combined_edge c = (estimated_win_prob c - 1 / m) * 100
         \<and> (length ps = 3 \<and> (\<forall>p\<in>set ps. leg_prob p = 6 / 10) \<and> m = 5
              \<longrightarrow> estimated_win_prob c = 216 / 1000 \<and> expected_value c * 100 = 8
                  \<and> breakeven_prob m = 2 / 10)"
proof -
  have m: "0 < m" using assms(1) by (rule get_payout_multiplier_pos)
  have be: "breakeven_prob m = 1 / m" using m by (simp add: breakeven_prob_def)
  have c: "c = \<lparr>players = ps,
            combined_edge = (prod_list (map leg_prob ps) - breakeven_prob m) * 100,
            estimated_win_prob = prod_list (map leg_prob ps),
            expected_value = prod_list (map leg_prob ps) * m - 1,
            payout_multiplier = m,
            avg_leg_confidence =
              (if ps \<noteq> [] then sum_list (map leg_confidence_weight ps) / of_nat (length ps) else 0),
            mode = md, book = bk\<rparr>"
    using assms by (simp add: calculate_slip_ev_multiplier)
  have ex: "prod_list (map leg_prob ps) = 216 / 1000"
    if "length ps = 3" "\<forall>p\<in>set ps. leg_prob p = 6 / 10"
  proof -
    from that(1) obtain p1 p2 p3 where "ps = [p1, p2, p3]"
      by (auto simp add: length_Suc_conv numeral_3_eq_3)
    with that(2) have "map leg_prob ps = [6 / 10, 6 / 10, 6 / 10]" by simp
    then show ?thesis by simp
  qed
  show ?thesis
    using be ex by (auto simp add: c leg_prob_def)
qed

theorem power_slip_expected_value_witness:
  "get_payout ''prizepicks'' ''power'' 3 = Multiplier 5
   \<and> estimated_win_prob
        (calculate_slip_ev
           [base_row ''Player A'' ''player_points'' (205 / 10) 0 (- 300),
            base_row ''Player B'' ''player_rebounds'' (85 / 10) 0 (- 300),
            base_row ''Player C'' ''player_assists'' (65 / 10) 0 (- 300)]
           3 ''prizepicks'' ''power'') = 216 / 1000
   \<and> expected_value
        (calculate_slip_ev
           [base_row ''Player A'' ''player_points'' (205 / 10) 0 (- 300),
            base_row ''Player B'' ''player_rebounds'' (85 / 10) 0 (- 300),
            base_row ''Player C'' ''player_assists'' (65 / 10) 0 (- 300)]
           3 ''prizepicks'' ''power'') * 100 = 8
   \<and> breakeven_prob 5 = 2 / 10"
proof -
  define ps where
    "ps = [base_row ''Player A'' ''player_points'' (205 / 10) 0 (- 300),
           base_row ''Player B'' ''player_rebounds'' (85 / 10) 0 (- 300),
           base_row ''Player C'' ''player_assists'' (65 / 10) 0 (- 300)]"
  have g: "get_payout ''prizepicks'' ''power'' 3 = Multiplier 5"
    by (simp add: get_payout_def BOOK_PAYOUTS_def LEGACY_PAYOUTS_def dict_get_def)
  have l: "length ps = 3" by (simp add: ps_def)
  have "leg_prob (base_row nm mk l 0 (- 300)) = 6 / 10" for nm mk l
    by (simp add: leg_prob_base_row confidence_adjusted_prob_def american_to_implied_prob_def)
  then have p: "\<forall>p\<in>set ps. leg_prob p = 6 / 10" by (simp add: ps_def)
  from power_slip_expected_value [OF g refl, of ps] l p g
  show ?thesis unfolding ps_def by simp
qed

text \<open>
  C10.  For a leg without opposing odds the optimizer takes the raw implied probability of
  the sharp odds (\<open>-110\<close> when the row has none) as the no-vig probability that it then
  adjusts for confidence; nothing is divided out.  So a slip of such legs has as win
  probability the product of the confidence adjustments of the raw implied probabilities,
  whereas the single-side devig of \<open>calculate_edge\<close> divides the same implied probability of
  nonzero odds by 1.05.
\<close>

theorem optimizer_uses_raw_implied_probability:
  assumes "\<forall>p\<in>set ps. opposing_odds p = None"
  shows "(\<forall>p\<in>set ps.
            no_vig_prob (dict_get (sharp_odds p) (- 110)) (opposing_odds p)
              = american_to_implied_prob (dict_get (sharp_odds p) (- 110))
            \<and> leg_prob p =
                confidence_adjusted_prob
                  (american_to_implied_prob (dict_get (sharp_odds p) (- 110)))
                  (leg_confidence_weight p))
         \<and> estimated_win_prob (calculate_slip_ev ps n bk md) =
             prod_list
               (map (\<lambda>p. confidence_adjusted_prob
                            (american_to_implied_prob (dict_get (sharp_odds p) (- 110)))
                            (leg_confidence_weight p)) ps)
         \<and> (\<forall>k. k \<noteq> 0 \<longrightarrow>
               (\<exists>c. calculate_edge st k fixed None (5 / 100) = Inr c
                    \<and> edge c + fixed_prob c = no_vig_prob k None / (1 + 5 / 100)
                    \<and> edge c + fixed_prob c < no_vig_prob k None))"
proof -
  have leg: "leg_prob p =
                confidence_adjusted_prob
                  (american_to_implied_prob (dict_get (sharp_odds p) (- 110)))
                  (leg_confidence_weight p)" if "p \<in> set ps" for p
    using assms that by (simp add: leg_prob_def no_vig_prob_def)
  then have "map leg_prob ps =
      map (\<lambda>p. confidence_adjusted_prob
                  (american_to_implied_prob (dict_get (sharp_odds p) (- 110)))
                  (leg_confidence_weight p)) ps"
    by simp
  then have win: "estimated_win_prob (calculate_slip_ev ps n bk md) =
             prod_list
               (map (\<lambda>p. confidence_adjusted_prob
                            (american_to_implied_prob (dict_get (sharp_odds p) (- 110)))
                            (leg_confidence_weight p)) ps)"
    by (simp only: calculate_slip_ev_win_prob)
  have same: "american_to_implied_prob k = implied_value k" if "k \<noteq> 0" for k
    using that by (auto simp add: american_to_implied_prob_def implied_value_eq)
  have edge: "\<exists>c. calculate_edge st k fixed None (5 / 100) = Inr c
                    \<and> edge c + fixed_prob c = no_vig_prob k None / (1 + 5 / 100)
                    \<and> edge c + fixed_prob c < no_vig_prob k None" if "k \<noteq> 0" for k
    using that implied_value_pos [of k]
    by (simp add: calculate_edge_single no_vig_prob_def same)
  show ?thesis
    using assms leg win edge by (simp add: no_vig_prob_def)
qed

theorem optimizer_uses_raw_implied_probability_witness:
  "opposing_odds (base_row ''Player A'' ''player_points'' (205 / 10) 6 (- 110)) = None
   \<and> estimated_win_prob
       (calculate_slip_ev [base_row ''Player A'' ''player_points'' (205 / 10) 6 (- 110)]
          1 ''sleeper'' ''power'')
     = 1 / 2 + (american_to_implied_prob (- 110) - 1 / 2) * (505 / 1000)
   \<and> american_to_implied_prob (- 110) = 11 / 21"
  using optimizer_uses_raw_implied_probability
          [of "[base_row ''Player A'' ''player_points'' (205 / 10) 6 (- 110)]"
              1 "''sleeper''" "''power''" default_settings None]
  by (simp add: confidence_adjusted_prob_def leg_confidence_weight_base_row dict_get_def
      american_to_implied_prob_def)

section \<open>Slip generation\<close>

lemma resolve_book_mode_always: "resolve_book_mode bk md = (''sleeper'', ''power'')"
proof -
  have sl: "map_of BOOK_PAYOUTS ''sleeper'' =
      Some [(''power'', map (\<lambda>n. (n, Multiplier (py_round_nd ((175 / 100) ^ nat n) 2))) [2..6])]"
    unfolding BOOK_PAYOUTS_def by simp
  show ?thesis
    unfolding resolve_book_mode_def Let_def
    by (cases "canonical_book_name bk = ''sleeper''") (simp_all add: sl)
qed

lemma is_available_sleeper:
  "is_available ''sleeper'' bk sport p = is_available ''sleeper'' bk' sport p"
  by (simp add: is_available_def)

lemma build_pool_sleeper:
  "build_pool opps min_edge ''sleeper'' bk sport = build_pool opps min_edge ''sleeper'' bk' sport"
  unfolding build_pool_def using is_available_sleeper [of bk sport _ bk'] by simp

lemma priced_candidates_eq:
  "priced_candidates opps sizes top_n min_edge bk md sport =
     collect_sizes (build_pool opps min_edge ''sleeper'' ''sleeper'' sport) top_n
       ''sleeper'' ''power'' (dict_get sizes [3, 4, 5, 6]) []"
  unfolding priced_candidates_def Let_def resolve_book_mode_always
  using build_pool_sleeper [of opps min_edge bk sport "''sleeper''"] by simp

lemma combinations_length: "c \<in> set (combinations xs r) \<Longrightarrow> length c = r"
  by (induction xs r arbitrary: c rule: combinations.induct) auto

lemma combinations_subset: "c \<in> set (combinations xs r) \<Longrightarrow> set c \<subseteq> set xs"
  by (induction xs r arbitrary: c rule: combinations.induct) fastforce+

lemma set_sorted_desc [simp]: "set (sorted_desc f xs) = set xs"
  by (simp add: sorted_desc_def)

lemma length_sorted_desc [simp]: "length (sorted_desc f xs) = length xs"
  by (simp add: sorted_desc_def)

lemma set_py_take: "set (py_take n xs) \<subseteq> set xs"
  by (auto simp add: py_take_def dest: in_set_takeD)

lemma combo_step_invariant:
  assumes "\<forall>c\<in>set (snd st). P c"
    and "length (map name_key combo) = card (set (map name_key combo))
           \<Longrightarrow> P (calculate_slip_ev combo sz bk md)"
  shows "\<forall>c\<in>set (snd (combo_step sz bk md combo st)). P c"
  using assms by (cases st) (auto simp add: combo_step_def Let_def)

lemma fold_combo_step_invariant:
  assumes "\<forall>c\<in>set (snd st). P c"
    and "\<And>combo. combo \<in> set combos \<Longrightarrow> distinct (map name_key combo)
           \<Longrightarrow> P (calculate_slip_ev combo sz bk md)"
  shows "\<forall>c\<in>set (snd (fold (combo_step sz bk md) combos st)). P c"
  using assms
proof (induction combos arbitrary: st)
  case Nil
  then show ?case by simp
next
  case (Cons combo combos)
  have "\<forall>c\<in>set (snd (combo_step sz bk md combo st)). P c"
  proof (rule combo_step_invariant [OF Cons.prems(1)])
    assume "length (map name_key combo) = card (set (map name_key combo))"
    then have "distinct (map name_key combo)" by (simp add: card_distinct)
    then show "P (calculate_slip_ev combo sz bk md)" using Cons.prems(2) by simp
  qed
  then show ?case using Cons.IH Cons.prems(2) by simp
qed

lemma collect_sizes_invariant:
  assumes "collect_sizes pool top_n bk md sizes acc = Inr all_candidates"
    and "\<forall>c\<in>set acc. priced_slip bk md c \<and> int (length (players c)) \<in> S"
    and "set sizes \<subseteq> S"
  shows "\<forall>c\<in>set all_candidates. priced_slip bk md c \<and> int (length (players c)) \<in> S"
  using assms
proof (induction sizes arbitrary: acc)
  case Nil
  then show ?case by simp
next
  case (Cons sz sizes)
  show ?case
  proof (cases "int (length pool) < sz \<or> 6 < sz")
    case True
    with Cons.prems(1) have "collect_sizes pool top_n bk md sizes acc = Inr all_candidates"
      by simp
    then show ?thesis using Cons.prems(3) by (intro Cons.IH [OF _ Cons.prems(2)]) simp_all
  next
    case False
    with Cons.prems(1) have nonneg: "0 \<le> sz" by (auto split: if_splits)
    define cands where
      "cands = snd (fold (combo_step sz bk md) (combinations pool (nat sz)) ({}, []))"
    define acc' where
      "acc' = (if cands \<noteq> []
               then acc @ take (nat (max 10 (top_n * 6))) (sorted_desc expected_value cands)
               else acc)"
    have rec: "collect_sizes pool top_n bk md sizes acc' = Inr all_candidates"
      using Cons.prems(1) False nonneg
      by (auto simp add: cands_def acc'_def Let_def split: if_splits)
    have "\<forall>c\<in>set (snd (fold (combo_step sz bk md) (combinations pool (nat sz)) ({}, []))).
            priced_slip bk md c \<and> int (length (players c)) \<in> S"
    proof (rule fold_combo_step_invariant)
      show "\<forall>c\<in>set (snd ({}, [])). priced_slip bk md c \<and> int (length (players c)) \<in> S"
        by simp
    next
      fix combo
      assume m: "combo \<in> set (combinations pool (nat sz))" and d: "distinct (map name_key combo)"
      from m have "length combo = nat sz" by (rule combinations_length)
      then have len: "int (length combo) = sz" using nonneg by simp
      have "sz \<in> S" using Cons.prems(3) by simp
      then show "priced_slip bk md (calculate_slip_ev combo sz bk md)
                 \<and> int (length (players (calculate_slip_ev combo sz bk md))) \<in> S"
        using d len by (simp add: priced_slip_def)
    qed
    then have c: "\<forall>c\<in>set cands. priced_slip bk md c \<and> int (length (players c)) \<in> S"
      by (simp add: cands_def)
    have "\<forall>c\<in>set acc'. priced_slip bk md c \<and> int (length (players c)) \<in> S"
      using c Cons.prems(2) by (auto simp add: acc'_def dest!: in_set_takeD)
    then show ?thesis using Cons.prems(3) by (intro Cons.IH [OF rec]) simp_all
  qed
qed

lemma overlap_ratio_commute: "overlap_ratio a b = overlap_ratio b a"
  by (auto simp add: overlap_ratio_def Let_def Un_commute Int_commute)

lemma diversify_invariant:
  assumes "sets = map slip_signature sel" and "sorted_wrt diverse sel"
  shows "snd (diversify top_n (sel, sets) cands) = map slip_signature (fst (diversify top_n (sel, sets) cands))
         \<and> sorted_wrt diverse (fst (diversify top_n (sel, sets) cands))
         \<and> set (fst (diversify top_n (sel, sets) cands)) \<subseteq> set sel \<union> set cands
         \<and> (sel \<noteq> [] \<longrightarrow> fst (diversify top_n (sel, sets) cands) \<noteq> [])"
  using assms
proof (induction cands arbitrary: sel sets)
  case Nil
  then show ?case by simp
next
  case (Cons cand rest)
  show ?case
  proof (cases "\<exists>prev\<in>set sets. 82 / 100 < overlap_ratio (slip_signature cand) prev")
    case True
    then have "diversify top_n (sel, sets) (cand # rest) = diversify top_n (sel, sets) rest"
      by (simp add: Let_def)
    then show ?thesis using Cons.IH [OF Cons.prems] by auto
  next
    case False
    define sel' where "sel' = sel @ [cand]"
    define sets' where "sets' = sets @ [slip_signature cand]"
    have s: "sets' = map slip_signature sel'" by (simp add: sel'_def sets'_def Cons.prems(1))
    have "\<forall>a\<in>set sel. diverse a cand"
      using False by (auto simp add: diverse_def Cons.prems(1) not_less)
    then have d: "sorted_wrt diverse sel'"
      using Cons.prems(2) by (simp add: sel'_def sorted_wrt_append)
    show ?thesis
    proof (cases "top_n \<le> int (length sel')")
      case True
      then have "diversify top_n (sel, sets) (cand # rest) = (sel', sets')"
        using False by (simp add: Let_def sel'_def sets'_def)
      then show ?thesis using s d by (auto simp add: sel'_def)
    next
      case stop: False
      then have "diversify top_n (sel, sets) (cand # rest) = diversify top_n (sel', sets') rest"
        using False by (simp add: Let_def sel'_def sets'_def)
      then show ?thesis using Cons.IH [OF s d] by (auto simp add: sel'_def)
    qed
  qed
qed

lemma diversify_first_accepted:
  "cands \<noteq> [] \<Longrightarrow> fst (diversify top_n ([], []) cands) \<noteq> []"
proof (cases cands)
  case Nil
  assume "cands \<noteq> []"
  with Nil show ?thesis by simp
next
  case (Cons cand rest)
  show ?thesis
  proof (cases "top_n \<le> 1")
    case True
    then show ?thesis by (simp add: Cons Let_def)
  next
    case False
    then have "diversify top_n ([], []) cands = diversify top_n ([cand], [slip_signature cand]) rest"
      by (simp add: Cons Let_def)
    then show ?thesis
      using diversify_invariant [of "[slip_signature cand]" "[cand]" top_n rest] by simp
  qed
qed

lemma fallback_never_fires:
  "all_candidates \<noteq> [] \<Longrightarrow> \<not> fallback_fired top_n (sorted_desc expected_value all_candidates)"
proof -
  assume "all_candidates \<noteq> []"
  then have "sorted_desc expected_value all_candidates \<noteq> []"
    by (metis length_sorted_desc length_0_conv)
  then show ?thesis by (simp add: fallback_fired_def diversify_first_accepted)
qed

lemma select_slips_properties:
  assumes "all_candidates \<noteq> []"
  shows "sorted_wrt diverse (select_slips top_n all_candidates)
         \<and> set (select_slips top_n all_candidates) \<subseteq> set all_candidates
         \<and> select_slips top_n all_candidates \<noteq> []"
proof -
  define sorted where "sorted = sorted_desc expected_value all_candidates"
  have ne: "sorted \<noteq> []" using assms by (metis sorted_def length_sorted_desc length_0_conv)
  have nf: "\<not> fallback_fired top_n sorted" unfolding sorted_def using assms by (rule fallback_never_fires)
  then have eq: "select_slips top_n all_candidates = fst (diversify top_n ([], []) sorted)"
    by (simp add: select_slips_def sorted_def Let_def)
  have "sorted_wrt diverse (fst (diversify top_n ([], []) sorted))
        \<and> set (fst (diversify top_n ([], []) sorted)) \<subseteq> set [] \<union> set sorted"
    using diversify_invariant [of "[]" "[]" top_n sorted] by simp
  then show ?thesis using eq nf by (simp add: sorted_def fallback_fired_def)
qed

lemma selected_slips_properties:
  assumes "selected_slips opps sizes top_n min_edge bk md sport = Inr selected"
  shows "sorted_wrt diverse selected
         \<and> (\<forall>c\<in>set selected. priced_slip ''sleeper'' ''power'' c
                \<and> int (length (players c)) \<in> set (dict_get sizes [3, 4, 5, 6]))"
proof -
  from assms obtain all_candidates where
    pc: "priced_candidates opps sizes top_n min_edge bk md sport = Inr all_candidates"
    and sel: "selected = (if all_candidates = [] then [] else select_slips top_n all_candidates)"
    by (cases "priced_candidates opps sizes top_n min_edge bk md sport")
       (auto simp add: selected_slips_def split: if_splits)
  have inv: "\<forall>c\<in>set all_candidates. priced_slip ''sleeper'' ''power'' c
                \<and> int (length (players c)) \<in> set (dict_get sizes [3, 4, 5, 6])"
    using pc unfolding priced_candidates_eq
    by (rule collect_sizes_invariant) simp_all
  show ?thesis
  proof (cases "all_candidates = []")
    case True
    then show ?thesis by (simp add: sel)
  next
    case False
    with select_slips_properties [OF False, of top_n] inv sel show ?thesis by auto
  qed
qed

section \<open>Serialization\<close>

lemma serialize_closed_form:
  "serialize bk md sel acc =
     acc @ map (\<lambda>(k, slip). serialize_slip bk md k slip) (enumerate (length acc) sel)"
  by (induction sel arbitrary: acc) simp_all

lemma length_serialize: "length (serialize bk md sel []) = length sel"
  by (simp add: serialize_closed_form)

lemma nth_serialize:
  "i < length sel \<Longrightarrow> serialize bk md sel [] ! i = serialize_slip bk md i (sel ! i)"
  by (simp add: serialize_closed_form nth_enumerate_eq)

lemma in_set_serialize:
  assumes "r \<in> set (serialize bk md sel [])"
  shows "\<exists>i<length sel. r = serialize_slip bk md i (sel ! i)"
proof -
  from assms obtain i where "i < length (serialize bk md sel [])" "r = serialize bk md sel [] ! i"
    by (auto simp add: in_set_conv_nth)
  then show ?thesis by (auto simp add: length_serialize nth_serialize)
qed

lemma generate_top_slips_eq:
  "generate_top_slips opps sizes top_n min_edge bk md sport =
     and_then (selected_slips opps sizes top_n min_edge bk md sport)
       (\<lambda>selected. Inr (py_take top_n (serialize ''sleeper'' ''power'' selected [])))"
  by (simp add: generate_top_slips_def resolve_book_mode_always)

lemma selected_slips_eq:
  "selected_slips opps sizes top_n min_edge bk md sport =
     selected_slips opps sizes top_n min_edge ''sleeper'' ''power'' sport"
  by (simp add: selected_slips_def priced_candidates_eq)

section \<open>Claims about slip generation\<close>

text \<open>
  C3.  The slips that \<open>generate_top_slips\<close> serializes, in their order, are pairwise diverse:
  for any two of them the Jaccard overlap of the leg-identity sets is at most 0.82 (the
  result list is the serialization of these slips, cut to \<open>top_n\<close>).  The fallback of
  line 390 never fires: the loop always accepts the first candidate, so after a nonempty
  candidate list the selection is not empty.  The exception of the claim and the flag it
  asks for therefore concern a branch that no input reaches.
\<close>

theorem selected_slips_pairwise_diverse:
  assumes "selected_slips opps sizes top_n min_edge bk md sport = Inr selected"
  shows "generate_top_slips opps sizes top_n min_edge bk md sport
           = Inr (py_take top_n (serialize ''sleeper'' ''power'' selected []))
         \<and> (\<forall>i j. i < j \<and> j < length selected \<longrightarrow>
                overlap_ratio (slip_signature (selected ! j)) (slip_signature (selected ! i))
                  \<le> 82 / 100
                \<and> overlap_ratio (slip_signature (selected ! i)) (slip_signature (selected ! j))
                  \<le> 82 / 100)
         \<and> (\<forall>all_candidates.
                priced_candidates opps sizes top_n min_edge bk md sport = Inr all_candidates
                \<and> all_candidates \<noteq> []
                \<longrightarrow> \<not> fallback_fired top_n (sorted_desc expected_value all_candidates))"
proof -
  have 1: "generate_top_slips opps sizes top_n min_edge bk md sport
           = Inr (py_take top_n (serialize ''sleeper'' ''power'' selected []))"
    using assms by (simp add: generate_top_slips_eq)
  have "sorted_wrt diverse selected"
    using selected_slips_properties [OF assms] by blast
  then have "\<forall>i j. i < j \<longrightarrow> j < length selected \<longrightarrow> diverse (selected ! i) (selected ! j)"
    by (simp add: sorted_wrt_iff_nth_less)
  then have 2: "\<forall>i j. i < j \<and> j < length selected \<longrightarrow>
                overlap_ratio (slip_signature (selected ! j)) (slip_signature (selected ! i))
                  \<le> 82 / 100
                \<and> overlap_ratio (slip_signature (selected ! i)) (slip_signature (selected ! j))
                  \<le> 82 / 100"
    using overlap_ratio_commute by (auto simp add: diverse_def)
  have 3: "\<forall>all_candidates.
                priced_candidates opps sizes top_n min_edge bk md sport = Inr all_candidates
                \<and> all_candidates \<noteq> []
                \<longrightarrow> \<not> fallback_fired top_n (sorted_desc expected_value all_candidates)"
    using fallback_never_fires by blast
  from 1 2 3 show ?thesis by blast
qed

lemma test_candidates:
  "priced_candidates test_opportunities (Some [2]) 4 0 ''prizepicks'' ''flex'' ''nba'' =
     Inr [calculate_slip_ev
            [base_row ''Player A'' ''player_points'' (205 / 10) 6 (- 110),
             base_row ''Player C'' ''player_assists'' (65 / 10) (45 / 10) (- 112)]
            2 ''sleeper'' ''power'',
          calculate_slip_ev
            [base_row ''Player B'' ''player_rebounds'' (85 / 10) 5 (- 108),
             base_row ''Player C'' ''player_assists'' (65 / 10) (45 / 10) (- 112)]
            2 ''sleeper'' ''power'',
          calculate_slip_ev
            [base_row ''Player A'' ''player_points'' (205 / 10) 6 (- 110),
             base_row ''Player B'' ''player_rebounds'' (85 / 10) 5 (- 108)]
            2 ''sleeper'' ''power'']"
  by code_simp

lemma test_select:
  "select_slips 4
     [calculate_slip_ev
            [base_row ''Player A'' ''player_points'' (205 / 10) 6 (- 110),
             base_row ''Player C'' ''player_assists'' (65 / 10) (45 / 10) (- 112)]
            2 ''sleeper'' ''power'',
          calculate_slip_ev
            [base_row ''Player B'' ''player_rebounds'' (85 / 10) 5 (- 108),
             base_row ''Player C'' ''player_assists'' (65 / 10) (45 / 10) (- 112)]
            2 ''sleeper'' ''power'',
          calculate_slip_ev
            [base_row ''Player A'' ''player_points'' (205 / 10) 6 (- 110),
             base_row ''Player B'' ''player_rebounds'' (85 / 10) 5 (- 108)]
            2 ''sleeper'' ''power''] =
     [calculate_slip_ev
            [base_row ''Player A'' ''player_points'' (205 / 10) 6 (- 110),
             base_row ''Player C'' ''player_assists'' (65 / 10) (45 / 10) (- 112)]
            2 ''sleeper'' ''power'',
          calculate_slip_ev
            [base_row ''Player B'' ''player_rebounds'' (85 / 10) 5 (- 108),
             base_row ''Player C'' ''player_assists'' (65 / 10) (45 / 10) (- 112)]
            2 ''sleeper'' ''power'',
          calculate_slip_ev
            [base_row ''Player A'' ''player_points'' (205 / 10) 6 (- 110),
             base_row ''Player B'' ''player_rebounds'' (85 / 10) 5 (- 108)]
            2 ''sleeper'' ''power'']"
  by code_simp

lemma test_selection:
  "selected_slips test_opportunities (Some [2]) 4 0 ''prizepicks'' ''flex'' ''nba'' =
     Inr [calculate_slip_ev
            [base_row ''Player A'' ''player_points'' (205 / 10) 6 (- 110),
             base_row ''Player C'' ''player_assists'' (65 / 10) (45 / 10) (- 112)]
            2 ''sleeper'' ''power'',
          calculate_slip_ev
            [base_row ''Player B'' ''player_rebounds'' (85 / 10) 5 (- 108),
             base_row ''Player C'' ''player_assists'' (65 / 10) (45 / 10) (- 112)]
            2 ''sleeper'' ''power'',
          calculate_slip_ev
            [base_row ''Player A'' ''player_points'' (205 / 10) 6 (- 110),
             base_row ''Player B'' ''player_rebounds'' (85 / 10) 5 (- 108)]
            2 ''sleeper'' ''power'']"
  unfolding selected_slips_def test_candidates and_then_Inr test_select
  by simp

theorem selected_slips_pairwise_diverse_witness:
  "selected_slips test_opportunities (Some [2]) 4 0 ''prizepicks'' ''flex'' ''nba'' =
     Inr [calculate_slip_ev
            [base_row ''Player A'' ''player_points'' (205 / 10) 6 (- 110),
             base_row ''Player C'' ''player_assists'' (65 / 10) (45 / 10) (- 112)]
            2 ''sleeper'' ''power'',
          calculate_slip_ev
            [base_row ''Player B'' ''player_rebounds'' (85 / 10) 5 (- 108),
             base_row ''Player C'' ''player_assists'' (65 / 10) (45 / 10) (- 112)]
            2 ''sleeper'' ''power'',
          calculate_slip_ev
            [base_row ''Player A'' ''player_points'' (205 / 10) 6 (- 110),
             base_row ''Player B'' ''player_rebounds'' (85 / 10) 5 (- 108)]
            2 ''sleeper'' ''power'']
   \<and> overlap_ratio
         (slip_signature
            (calculate_slip_ev
            [base_row ''Player B'' ''player_rebounds'' (85 / 10) 5 (- 108),
             base_row ''Player C'' ''player_assists'' (65 / 10) (45 / 10) (- 112)]
            2 ''sleeper'' ''power''))
         (slip_signature
            (calculate_slip_ev
            [base_row ''Player A'' ''player_points'' (205 / 10) 6 (- 110),
             base_row ''Player C'' ''player_assists'' (65 / 10) (45 / 10) (- 112)]
            2 ''sleeper'' ''power'')) \<le> 82 / 100
   \<and> overlap_ratio
         (slip_signature
            (calculate_slip_ev
            [base_row ''Player A'' ''player_points'' (205 / 10) 6 (- 110),
             base_row ''Player B'' ''player_rebounds'' (85 / 10) 5 (- 108)]
            2 ''sleeper'' ''power''))
         (slip_signature
            (calculate_slip_ev
            [base_row ''Player B'' ''player_rebounds'' (85 / 10) 5 (- 108),
             base_row ''Player C'' ''player_assists'' (65 / 10) (45 / 10) (- 112)]
            2 ''sleeper'' ''power'')) \<le> 82 / 100
   \<and> priced_candidates test_opportunities (Some [2]) 4 0 ''prizepicks'' ''flex'' ''nba'' =
       Inr [calculate_slip_ev
            [base_row ''Player A'' ''player_points'' (205 / 10) 6 (- 110),
             base_row ''Player C'' ''player_assists'' (65 / 10) (45 / 10) (- 112)]
            2 ''sleeper'' ''power'',
          calculate_slip_ev
            [base_row ''Player B'' ''player_rebounds'' (85 / 10) 5 (- 108),
             base_row ''Player C'' ''player_assists'' (65 / 10) (45 / 10) (- 112)]
            2 ''sleeper'' ''power'',
          calculate_slip_ev
            [base_row ''Player A'' ''player_points'' (205 / 10) 6 (- 110),
             base_row ''Player B'' ''player_rebounds'' (85 / 10) 5 (- 108)]
            2 ''sleeper'' ''power'']
   \<and> \<not> fallback_fired 4
         (sorted_desc expected_value
            [calculate_slip_ev
            [base_row ''Player A'' ''player_points'' (205 / 10) 6 (- 110),
             base_row ''Player C'' ''player_assists'' (65 / 10) (45 / 10) (- 112)]
            2 ''sleeper'' ''power'',
          calculate_slip_ev
            [base_row ''Player B'' ''player_rebounds'' (85 / 10) 5 (- 108),
             base_row ''Player C'' ''player_assists'' (65 / 10) (45 / 10) (- 112)]
            2 ''sleeper'' ''power'',
          calculate_slip_ev
            [base_row ''Player A'' ''player_points'' (205 / 10) 6 (- 110),
             base_row ''Player B'' ''player_rebounds'' (85 / 10) 5 (- 108)]
            2 ''sleeper'' ''power''])"
proof -
  let ?ac = "calculate_slip_ev
            [base_row ''Player A'' ''player_points'' (205 / 10) 6 (- 110),
             base_row ''Player C'' ''player_assists'' (65 / 10) (45 / 10) (- 112)]
            2 ''sleeper'' ''power''"
  let ?bc = "calculate_slip_ev
            [base_row ''Player B'' ''player_rebounds'' (85 / 10) 5 (- 108),
             base_row ''Player C'' ''player_assists'' (65 / 10) (45 / 10) (- 112)]
            2 ''sleeper'' ''power''"
  let ?ab = "calculate_slip_ev
            [base_row ''Player A'' ''player_points'' (205 / 10) 6 (- 110),
             base_row ''Player B'' ''player_rebounds'' (85 / 10) 5 (- 108)]
            2 ''sleeper'' ''power''"
  note t = selected_slips_pairwise_diverse [OF test_selection]
  from t have d: "\<And>i j. i < j \<Longrightarrow> j < length [?ac, ?bc, ?ab] \<Longrightarrow>
             overlap_ratio (slip_signature ([?ac, ?bc, ?ab] ! j))
               (slip_signature ([?ac, ?bc, ?ab] ! i)) \<le> 82 / 100"
    by blast
  have 1: "overlap_ratio (slip_signature ?bc) (slip_signature ?ac) \<le> 82 / 100"
    using d [of 0 1] by simp
  have 2: "overlap_ratio (slip_signature ?ab) (slip_signature ?bc) \<le> 82 / 100"
    using d [of 1 2] by simp
  from t test_candidates
  have 3: "\<not> fallback_fired 4 (sorted_desc expected_value [?ac, ?bc, ?ab])"
    by blast
  from test_selection test_candidates 1 2 3 show ?thesis by blast
qed

text \<open>
  C9.  When the book argument does not canonicalize to \<open>sleeper\<close>, the book and the mode are
  replaced by \<open>sleeper\<close> and \<open>power\<close>: the call returns what the call for Sleeper power
  returns, and every returned slip carries that book and mode, the multiplier that the Sleeper
  power table (with its fallback) gives for its number of legs, and the expected value
  computed from that multiplier.
\<close>

theorem other_books_priced_as_sleeper_power:
  assumes "canonical_book_name bk \<noteq> ''sleeper''"
  shows "resolve_book_mode bk md = (''sleeper'', ''power'')
         \<and> generate_top_slips opps sizes top_n min_edge bk md sport
             = generate_top_slips opps sizes top_n min_edge ''sleeper'' ''power'' sport
         \<and> (\<forall>results. generate_top_slips opps sizes top_n min_edge bk md sport = Inr results \<longrightarrow>
               (\<forall>r\<in>set results.
                  r_book r = ''sleeper'' \<and> r_mode r = ''power''
                  \<and> get_payout ''sleeper'' ''power'' (int (slip_size r))
                      = Multiplier (r_payout_multiplier r)
                  \<and> (\<exists>legs. length legs = slip_size r
                         \<and> r_players r = map serialize_leg legs
                         \<and> expected_value_pct r =
                             py_round_nd
                               ((prod_list (map leg_prob legs) * r_payout_multiplier r - 1) * 100) 2)))"
proof -
  have 1: "generate_top_slips opps sizes top_n min_edge bk md sport
             = generate_top_slips opps sizes top_n min_edge ''sleeper'' ''power'' sport"
    using selected_slips_eq [of opps sizes top_n min_edge bk md sport]
    by (simp add: generate_top_slips_eq)
  have 2: "r_book r = ''sleeper'' \<and> r_mode r = ''power''
                  \<and> get_payout ''sleeper'' ''power'' (int (slip_size r))
                      = Multiplier (r_payout_multiplier r)
                  \<and> (\<exists>legs. length legs = slip_size r
                         \<and> r_players r = map serialize_leg legs
                         \<and> expected_value_pct r =
                             py_round_nd
                               ((prod_list (map leg_prob legs) * r_payout_multiplier r - 1) * 100) 2)"
    if res: "generate_top_slips opps sizes top_n min_edge bk md sport = Inr results"
      and r: "r \<in> set results" for results r
  proof -
    from res obtain selected where
      sel: "selected_slips opps sizes top_n min_edge bk md sport = Inr selected"
      and results: "results = py_take top_n (serialize ''sleeper'' ''power'' selected [])"
      by (cases "selected_slips opps sizes top_n min_edge bk md sport")
         (auto simp add: generate_top_slips_eq)
    from r results have "r \<in> set (serialize ''sleeper'' ''power'' selected [])"
      using set_py_take by fastforce
    then obtain i where i: "i < length selected"
      and ri: "r = serialize_slip ''sleeper'' ''power'' i (selected ! i)"
      using in_set_serialize by blast
    define c where "c = selected ! i"
    have "c \<in> set selected" using i by (simp add: c_def)
    then have "priced_slip ''sleeper'' ''power'' c"
      using selected_slips_properties [OF sel] by blast
    then have c: "c = calculate_slip_ev (players c) (int (length (players c))) ''sleeper'' ''power''"
      by (simp add: priced_slip_def)
    obtain m where m: "get_payout ''sleeper'' ''power'' (int (length (players c))) = Multiplier m"
      using get_payout_sleeper_power by blast
    have pm: "payout_multiplier c = m"
      by (subst c) (simp add: calculate_slip_ev_multiplier [OF m])
    have ev: "expected_value c = prod_list (map leg_prob (players c)) * m - 1"
      by (subst c) (simp add: calculate_slip_ev_multiplier [OF m])
    show ?thesis
      unfolding ri c_def [symmetric]
      using m pm ev by (auto simp add: serialize_slip_def)
  qed
  from resolve_book_mode_always [of bk md] 1 2 show ?thesis by blast
qed

theorem other_books_priced_as_sleeper_power_witness:
  "canonical_book_name ''prizepicks'' \<noteq> ''sleeper''
   \<and> resolve_book_mode ''prizepicks'' ''flex'' = (''sleeper'', ''power'')
   \<and> generate_top_slips test_opportunities (Some [2]) 4 0 ''prizepicks'' ''flex'' ''nba''
       = generate_top_slips test_opportunities (Some [2]) 4 0 ''sleeper'' ''power'' ''nba''
   \<and> map_sum id (map (\<lambda>r. (r_book r, r_mode r, slip_size r, r_payout_multiplier r)))
        (generate_top_slips test_opportunities (Some [2]) 4 0 ''prizepicks'' ''flex'' ''nba'')
       = Inr [(''sleeper'', ''power'', 2, 306 / 100), (''sleeper'', ''power'', 2, 306 / 100),
              (''sleeper'', ''power'', 2, 306 / 100)]"
proof -
  have h: "canonical_book_name ''prizepicks'' \<noteq> ''sleeper''" by code_simp
  have m: "payout_multiplier (calculate_slip_ev ps 2 ''sleeper'' ''power'') = 306 / 100" for ps
    using calculate_slip_ev_multiplier [of "''sleeper''" "''power''" 2 "306 / 100" ps]
    by (simp add: get_payout_sleeper_power)
  have "map_sum id (map (\<lambda>r. (r_book r, r_mode r, slip_size r, r_payout_multiplier r)))
        (generate_top_slips test_opportunities (Some [2]) 4 0 ''prizepicks'' ''flex'' ''nba'')
       = Inr [(''sleeper'', ''power'', 2, 306 / 100), (''sleeper'', ''power'', 2, 306 / 100),
              (''sleeper'', ''power'', 2, 306 / 100)]"
    by (simp add: generate_top_slips_eq test_selection py_take_def serialize_slip_def m)
  with other_books_priced_as_sleeper_power [OF h, of "''flex''" test_opportunities "Some [2]" 4 0 "''nba''"] h
  show ?thesis by blast
qed

text \<open>
  C7.  Every returned slip is to have pairwise distinct player names, a leg list that is not
  empty and a reported size equal to its number of legs.  The leg list is empty for the
  requested size 0, which the guard of line 357 lets through (it bounds the size from above
  only): \<open>combinations(pool, 0)\<close> yields the empty combination, which is priced and
  returned as a slip with no legs, a reported size of 0 and an expected value of 100 percent.
  For the pool of the repository's test:
\<close>

theorem size_zero_yields_slip_without_legs:
  "generate_top_slips test_opportunities (Some [0]) 5 0 ''sleeper'' ''power'' ''nba''
     = Inr [\<lparr>rank = 1, slip_size = 0, r_book = ''sleeper'', r_mode = ''power'', r_players = [],
             combined_edge_pct = 50, win_probability_pct = 100, r_payout_multiplier = 2,
             expected_value_pct = 100, r_avg_leg_confidence = 0\<rparr>]"
  by code_simp

text \<open>
  What does hold of every returned slip: its reported size is its number of legs, its legs
  are the serialization of legs with pairwise distinct player names (stripped and lowercased,
  and so also when only lowercased), and their number is one of the requested sizes; the
  legs are therefore not empty when every requested size is at least 1.
\<close>

lemma py_isspace_lower: "py_isspace (py_lower_char c) = py_isspace c"
proof (cases "CHR ''A'' \<le> c \<and> c \<le> CHR ''Z''")
  case True
  then have r: "65 \<le> (of_char c :: nat)" "(of_char c :: nat) \<le> 90"
    by (simp_all add: less_eq_char_def)
  then have "(of_char (py_lower_char c) :: nat) = of_char c + 32"
    using True by (simp add: py_lower_char_def)
  with r show ?thesis by (simp add: py_isspace_def)
next
  case False
  then show ?thesis by (auto simp add: py_lower_char_def)
qed

lemma dropWhile_space_lower:
  "dropWhile py_isspace (py_lower s) = py_lower (dropWhile py_isspace s)"
  by (simp add: py_lower_def dropWhile_map comp_def py_isspace_lower)

lemma py_lower_strip_commute: "py_lower (py_strip s) = py_strip (py_lower s)"
proof -
  have r: "rev (py_lower t) = py_lower (rev t)" for t by (simp add: py_lower_def rev_map)
  show ?thesis
    by (simp add: py_strip_def dropWhile_space_lower r)
qed

lemma distinct_lowercase_names:
  assumes "distinct (map name_key legs)"
  shows "distinct (map (\<lambda>p. py_lower (dict_get (player_name p) [])) legs)"
proof -
  have "map name_key legs = map (py_strip \<circ> (\<lambda>p. py_lower (dict_get (player_name p) []))) legs"
    by (simp add: name_key_def py_lower_strip_commute)
  with assms have "distinct (map (py_strip \<circ> (\<lambda>p. py_lower (dict_get (player_name p) []))) legs)"
    by simp
  then show ?thesis using inj_on_imageI2 by (auto simp add: distinct_map)
qed

lemma generated_slips_legal:
  assumes "generate_top_slips opps sizes top_n min_edge bk md sport = Inr results"
    and "r \<in> set results"
  shows "slip_size r = length (r_players r)
         \<and> (\<exists>legs. r_players r = map serialize_leg legs
                \<and> distinct (map name_key legs)
                \<and> distinct (map (\<lambda>p. py_lower (dict_get (player_name p) [])) legs)
                \<and> int (length legs) \<in> set (dict_get sizes [3, 4, 5, 6]))
         \<and> ((\<forall>sz\<in>set (dict_get sizes [3, 4, 5, 6]). 1 \<le> sz) \<longrightarrow> r_players r \<noteq> [])"
proof -
  from assms(1) obtain selected where
    sel: "selected_slips opps sizes top_n min_edge bk md sport = Inr selected"
    and results: "results = py_take top_n (serialize ''sleeper'' ''power'' selected [])"
    by (cases "selected_slips opps sizes top_n min_edge bk md sport")
       (auto simp add: generate_top_slips_eq)
  from assms(2) results have "r \<in> set (serialize ''sleeper'' ''power'' selected [])"
    using set_py_take by fastforce
  then obtain i where i: "i < length selected"
    and ri: "r = serialize_slip ''sleeper'' ''power'' i (selected ! i)"
    using in_set_serialize by blast
  define c where "c = selected ! i"
  have "c \<in> set selected" using i by (simp add: c_def)
  then have p: "priced_slip ''sleeper'' ''power'' c"
    and n: "int (length (players c)) \<in> set (dict_get sizes [3, 4, 5, 6])"
    using selected_slips_properties [OF sel] by blast+
  from p have d: "distinct (map name_key (players c))" by (simp add: priced_slip_def)
  have ne: "players c \<noteq> []" if "\<forall>sz\<in>set (dict_get sizes [3, 4, 5, 6]). 1 \<le> sz"
    using that n by fastforce
  show ?thesis
    unfolding ri c_def [symmetric]
    using d n ne distinct_lowercase_names [OF d] by (auto simp add: serialize_slip_def)
qed

end
